theory Spec2Isabelle
  imports Complex_Main
begin

section \<open>The download manager\<close>

text \<open>
  The source is the second module in \<^verbatim>\<open>src/services/cache.ts\<close> (lines 108 to 253),
  which the applications import as \<^verbatim>\<open>services/download\<close>.

  The class \<^verbatim>\<open>DownloadManager\<close> runs on the JavaScript event loop: every
  synchronous stretch of code (the part of \<^verbatim>\<open>downloadModel\<close> up to
  \<^verbatim>\<open>await pipeline(...)\<close>, one call of \<^verbatim>\<open>progressTracker\<close>, the
  continuation after the \<^verbatim>\<open>await\<close>, one timer callback) runs to its end before
  any other does. The model is a transition system whose events are these stretches.
  What the environment decides (who calls, what the fetch reports and when, how time
  passes, which due timer runs next) is the choice of the event.
\<close>

subsection \<open>Data\<close>

datatype status = Pending | Downloading | Completed | Error

text \<open>
  A JavaScript number that results from a division. Finite values are exact rationals
  (the rounding of doubles is left out); a division by zero gives an infinity or NaN
  as in IEEE 754.
\<close>

datatype jsnum = Finite rat | Infinity | MinusInfinity | NaN

definition js_div :: "int \<Rightarrow> int \<Rightarrow> jsnum" where
  "js_div a b =
     (if b \<noteq> 0 then Finite (of_int a / of_int b)
      else if 0 < a then Infinity
      else if a < 0 then MinusInfinity
      else NaN)"

fun js_times :: "jsnum \<Rightarrow> rat \<Rightarrow> jsnum" where
  "js_times (Finite x) k = Finite (x * k)"
| "js_times Infinity k = (if 0 < k then Infinity else if k < 0 then MinusInfinity else NaN)"
| "js_times MinusInfinity k = (if 0 < k then MinusInfinity else if k < 0 then Infinity else NaN)"
| "js_times NaN k = NaN"

text \<open>\<^verbatim>\<open>a <= b\<close> on numbers: false as soon as one side is NaN.\<close>

fun js_le :: "jsnum \<Rightarrow> jsnum \<Rightarrow> bool" where
  "js_le NaN y = False"
| "js_le x NaN = False"
| "js_le MinusInfinity y = True"
| "js_le x Infinity = True"
| "js_le (Finite x) (Finite y) = (x \<le> y)"
| "js_le x y = False"

text \<open>The interface \<^verbatim>\<open>DownloadProgress\<close>.\<close>

record DownloadProgress =
  modelId :: string
  status :: status
  progress :: jsnum
  loaded :: int
  total :: int
  speed :: rat
  eta :: rat
  error :: "string option"

text \<open>
  What a promise is rejected with, or a callback throws: an \<^verbatim>\<open>Error\<close> instance
  with its message, or any other value. Two \<^verbatim>\<open>Error\<close> objects with the same
  message are not told apart.
\<close>

datatype thrown = ErrorObj string | NonError

text \<open>What a promise is fulfilled with: the model that \<^verbatim>\<open>pipeline\<close> built, or \<^verbatim>\<open>null\<close>.\<close>

datatype handle = Model nat | Null

datatype outcome = Resolved handle | Rejected thrown

text \<open>
  A \<^verbatim>\<open>ProgressCallback\<close>: it is given the progress object and returns, or
  throws. It is an observer: it does not write to the object and does not call back into
  the manager. \<open>cb_id\<close> names it in the log of notifications.
\<close>

record callback =
  cb_id :: nat
  cb_run :: "DownloadProgress \<Rightarrow> thrown option"

text \<open>
  The argument that \<^verbatim>\<open>pipeline\<close> gives its \<^verbatim>\<open>progress_callback\<close>; the fields
  that \<^verbatim>\<open>progressTracker\<close> reads. The byte counts are integers; an absent
  \<^verbatim>\<open>file\<close> is \<open>None\<close>.
\<close>

record sample =
  s_status :: string
  s_file :: "string option"
  s_loaded :: int
  s_total :: int

text \<open>
  The variables that the closure of one running \<^verbatim>\<open>downloadModel\<close> call holds
  while it awaits \<^verbatim>\<open>pipeline\<close>: its arguments, \<^verbatim>\<open>lastLoaded\<close>,
  \<^verbatim>\<open>lastTime\<close>, and the promise it returned. Its \<^verbatim>\<open>progressData\<close> object is
  the address under which the closure is stored.
\<close>

record download =
  d_modelId :: string
  d_task :: string
  lastLoaded :: int
  lastTime :: int
  d_promise :: nat

text \<open>
  The two callbacks given to \<^verbatim>\<open>setTimeout\<close>: the eviction of the
  \<^verbatim>\<open>finally\<close> block and \<^verbatim>\<open>checkStatus\<close> of a waiting caller.
\<close>

datatype timer_action = Evict string | Poll nat string

text \<open>
  The state: the two maps of the manager, the store of \<^verbatim>\<open>progressData\<close> objects
  (the map \<open>activeDownloads\<close> and the closures hold addresses into it, as both
  refer to one object), the closures awaiting their fetch, the pending timers, the clock
  read by \<^verbatim>\<open>Date.now()\<close> in milliseconds, and four logs: the settled promises, the
  notifications delivered (callback, snapshot of the object), the calls of
  \<^verbatim>\<open>pipeline\<close> (task, model), and the assignments to a \<^verbatim>\<open>status\<close> field.
\<close>

record state =
  activeDownloads :: "string \<rightharpoonup> nat"
  callbacks :: "string \<rightharpoonup> callback list"
  heap :: "nat \<Rightarrow> DownloadProgress"
  next_ref :: nat
  inflight :: "nat \<rightharpoonup> download"
  timers :: "nat \<rightharpoonup> int \<times> timer_action"
  next_timer :: nat
  clock :: int
  next_promise :: nat
  settled :: "(nat \<times> outcome) list"
  notified :: "(nat \<times> DownloadProgress) list"
  pipeline_calls :: "(string \<times> string) list"
  status_writes :: "(nat \<times> status) list"

definition fresh :: "string \<Rightarrow> DownloadProgress" where
  "fresh m = \<lparr>modelId = m, status = Downloading, progress = Finite 0, loaded = 0,
     total = 0, speed = 0, eta = 0, error = None\<rparr>"

definition init :: state where
  "init = \<lparr>activeDownloads = Map.empty, callbacks = Map.empty, heap = (\<lambda>_. fresh []),
     next_ref = 0, inflight = Map.empty, timers = Map.empty, next_timer = 0, clock = 0,
     next_promise = 0, settled = [], notified = [], pipeline_calls = [],
     status_writes = []\<rparr>"

subsection \<open>The methods\<close>

definition getProgress :: "state \<Rightarrow> string \<Rightarrow> DownloadProgress option" where
  "getProgress st m = map_option (heap st) (activeDownloads st m)"

definition isDownloading :: "state \<Rightarrow> string \<Rightarrow> bool" where
  "isDownloading st m =
     (case getProgress st m of None \<Rightarrow> False | Some p \<Rightarrow> status p = Downloading)"

definition registered :: "state \<Rightarrow> string \<Rightarrow> callback list" where
  "registered st m = (case callbacks st m of None \<Rightarrow> [] | Some cbs \<Rightarrow> cbs)"

definition addProgressCallback :: "string \<Rightarrow> callback \<Rightarrow> state \<Rightarrow> state" where
  "addProgressCallback m cb st = st\<lparr>callbacks := (callbacks st)(m \<mapsto> registered st m @ [cb])\<rparr>"

definition register :: "string \<Rightarrow> callback option \<Rightarrow> state \<Rightarrow> state" where
  "register m onProgress st =
     (case onProgress of None \<Rightarrow> st | Some cb \<Rightarrow> addProgressCallback m cb st)"

text \<open>
  \<^verbatim>\<open>callbacks.forEach((cb) => cb(progress))\<close>: in order, and the first exception
  ends the loop and is the result.
\<close>

fun forEach_cb :: "callback list \<Rightarrow> DownloadProgress \<Rightarrow> (nat \<times> DownloadProgress) list
    \<Rightarrow> thrown option \<times> (nat \<times> DownloadProgress) list" where
  "forEach_cb [] p seen = (None, seen)"
| "forEach_cb (cb # cbs) p seen =
     (case cb_run cb p of
        Some e \<Rightarrow> (Some e, seen @ [(cb_id cb, p)])
      | None \<Rightarrow> forEach_cb cbs p (seen @ [(cb_id cb, p)]))"

definition notifyProgress :: "string \<Rightarrow> DownloadProgress \<Rightarrow> state \<Rightarrow> thrown option \<times> state" where
  "notifyProgress m p st =
     (case forEach_cb (registered st m) p (notified st) of
        (r, seen) \<Rightarrow> (r, st\<lparr>notified := seen\<rparr>))"

definition setTimeout :: "timer_action \<Rightarrow> int \<Rightarrow> state \<Rightarrow> state" where
  "setTimeout act delay st =
     st\<lparr>timers := (timers st)(next_timer st \<mapsto> (clock st + delay, act)),
        next_timer := next_timer st + 1\<rparr>"

definition settle :: "nat \<Rightarrow> outcome \<Rightarrow> state \<Rightarrow> state" where
  "settle pr res st = st\<lparr>settled := settled st @ [(pr, res)]\<rparr>"

text \<open>\<^verbatim>\<open>progress.error || 'Download failed'\<close>: an absent and an empty message are both falsy.\<close>

definition error_or_default :: "string option \<Rightarrow> string" where
  "error_or_default e =
     (case e of None \<Rightarrow> ''Download failed''
      | Some msg \<Rightarrow> if msg = [] then ''Download failed'' else msg)"

definition checkStatus :: "nat \<Rightarrow> string \<Rightarrow> state \<Rightarrow> state" where
  "checkStatus pr m st =
     (case getProgress st m of
        None \<Rightarrow> settle pr (Rejected (ErrorObj ''Download cancelled'')) st
      | Some p \<Rightarrow>
          if status p = Completed then settle pr (Resolved Null) st
          else if status p = Error then settle pr (Rejected (ErrorObj (error_or_default (error p)))) st
          else setTimeout (Poll pr m) 100 st)"

definition waitForDownload :: "nat \<Rightarrow> string \<Rightarrow> state \<Rightarrow> state" where
  "waitForDownload pr m st = checkStatus pr m st"

text \<open>The test \<^verbatim>\<open>progress.status === 'progress' && progress.file\<close>.\<close>

definition tracked :: "sample \<Rightarrow> bool" where
  "tracked s =
     (s_status s = ''progress'' \<and> (case s_file s of None \<Rightarrow> False | Some f \<Rightarrow> f \<noteq> []))"

text \<open>
  The body of \<^verbatim>\<open>progressTracker\<close> under that test, without its last line (the
  notification): from the reading of \<^verbatim>\<open>Date.now()\<close>, the closure's variables,
  the object and the sample, to the new variables and the new object.
\<close>

definition progressTracker :: "int \<Rightarrow> download \<Rightarrow> DownloadProgress \<Rightarrow> sample
    \<Rightarrow> download \<times> DownloadProgress" where
  "progressTracker now d p s =
     (let timeDelta = (of_int (now - lastTime d) :: rat) / 1000;
          loadedDelta = s_loaded s - lastLoaded d;
          speed' = (if 0 < timeDelta then of_int loadedDelta / timeDelta else 0);
          remaining = s_total s - s_loaded s;
          eta' = (if 0 < speed' then of_int remaining / speed' else 0)
      in (d\<lparr>lastLoaded := s_loaded s, lastTime := now\<rparr>,
          p\<lparr>progress := js_times (js_div (s_loaded s) (s_total s)) 100,
            loaded := s_loaded s, total := s_total s, speed := speed', eta := eta'\<rparr>))"

text \<open>
  One call of \<^verbatim>\<open>progressTracker\<close> by the fetch. What a callback throws in its
  notification leaves \<^verbatim>\<open>progressTracker\<close> and goes to the fetch that called it;
  what the fetch makes of it shows in its later events.
\<close>

definition on_sample :: "nat \<Rightarrow> download \<Rightarrow> sample \<Rightarrow> state \<Rightarrow> state" where
  "on_sample a d s st =
     (if tracked s then
        (case progressTracker (clock st) d (heap st a) s of
           (d', p') \<Rightarrow>
             snd (notifyProgress (d_modelId d) p'
                    (st\<lparr>heap := (heap st)(a := p'), inflight := (inflight st)(a \<mapsto> d')\<rparr>)))
      else st)"

text \<open>An assignment to the \<^verbatim>\<open>status\<close> field of the object at an address, logged.\<close>

definition set_status :: "nat \<Rightarrow> status \<Rightarrow> state \<Rightarrow> state" where
  "set_status a s st =
     st\<lparr>heap := (heap st)(a := (heap st a)\<lparr>status := s\<rparr>),
        status_writes := status_writes st @ [(a, s)]\<rparr>"

text \<open>The \<^verbatim>\<open>finally\<close> block, and the promise of \<^verbatim>\<open>downloadModel\<close> settling.\<close>

definition finish :: "nat \<Rightarrow> download \<Rightarrow> outcome \<Rightarrow> state \<Rightarrow> state" where
  "finish a d res st =
     settle (d_promise d) res
       (setTimeout (Evict (d_modelId d)) 5000 (st\<lparr>inflight := (inflight st)(a := None)\<rparr>))"

definition error_message :: "thrown \<Rightarrow> string" where
  "error_message e = (case e of ErrorObj msg \<Rightarrow> msg | NonError \<Rightarrow> ''Unknown error'')"

text \<open>
  The \<^verbatim>\<open>catch\<close> block. An exception of its own notification replaces the one
  it was about to rethrow.
\<close>

definition catch_block :: "nat \<Rightarrow> download \<Rightarrow> thrown \<Rightarrow> state \<Rightarrow> state" where
  "catch_block a d e st =
     (let st1 = set_status a Error st;
          st2 = st1\<lparr>heap := (heap st1)(a := (heap st1 a)\<lparr>error := Some (error_message e)\<rparr>)\<rparr>
      in case notifyProgress (d_modelId d) (heap st2 a) st2 of
           (None, st3) \<Rightarrow> finish a d (Rejected e) st3
         | (Some e', st3) \<Rightarrow> finish a d (Rejected e') st3)"

text \<open>
  The rest of the \<^verbatim>\<open>try\<close> block once \<^verbatim>\<open>pipeline\<close> has returned the model. The
  notification is inside the \<^verbatim>\<open>try\<close>: what a callback throws is caught by the
  \<^verbatim>\<open>catch\<close> block.
\<close>

definition on_resolve :: "nat \<Rightarrow> download \<Rightarrow> nat \<Rightarrow> state \<Rightarrow> state" where
  "on_resolve a d model st =
     (let st1 = set_status a Completed st;
          st2 = st1\<lparr>heap := (heap st1)(a := (heap st1 a)\<lparr>progress := Finite 100\<rparr>)\<rparr>
      in case notifyProgress (d_modelId d) (heap st2 a) st2 of
           (None, st3) \<Rightarrow> finish a d (Resolved (Model model)) st3
         | (Some e, st3) \<Rightarrow> catch_block a d e st3)"

definition joinable :: "state \<Rightarrow> string \<Rightarrow> bool" where
  "joinable st m =
     (case activeDownloads st m of
        None \<Rightarrow> False
      | Some a \<Rightarrow> status (heap st a) = Downloading)"

text \<open>
  \<^verbatim>\<open>downloadModel\<close> up to its \<^verbatim>\<open>await\<close>. The promise it returns is numbered
  \<open>next_promise\<close>.
\<close>

definition start :: "nat \<Rightarrow> string \<Rightarrow> string \<Rightarrow> callback option \<Rightarrow> state \<Rightarrow> state" where
  "start pr m task onProgress st =
     (let a = next_ref st;
          st1 = st\<lparr>heap := (heap st)(a := fresh m), next_ref := a + 1,
                   status_writes := status_writes st @ [(a, Downloading)]\<rparr>;
          st2 = st1\<lparr>activeDownloads := (activeDownloads st1)(m \<mapsto> a)\<rparr>;
          st3 = register m onProgress st2
      in st3\<lparr>inflight := (inflight st3)(a \<mapsto>
                \<lparr>d_modelId = m, d_task = task, lastLoaded = 0, lastTime = clock st3,
                 d_promise = pr\<rparr>),
             pipeline_calls := pipeline_calls st3 @ [(task, m)]\<rparr>)"

definition downloadModel :: "string \<Rightarrow> string \<Rightarrow> callback option \<Rightarrow> state \<Rightarrow> state" where
  "downloadModel m task onProgress st =
     (let pr = next_promise st;
          st0 = st\<lparr>next_promise := pr + 1\<rparr>
      in if joinable st0 m then waitForDownload pr m (register m onProgress st0)
         else start pr m task onProgress st0)"

definition evict :: "string \<Rightarrow> state \<Rightarrow> state" where
  "evict m st = st\<lparr>activeDownloads := (activeDownloads st)(m := None),
                    callbacks := (callbacks st)(m := None)\<rparr>"

fun run_timer :: "timer_action \<Rightarrow> state \<Rightarrow> state" where
  "run_timer (Evict m) st = evict m st"
| "run_timer (Poll pr m) st = checkStatus pr m st"

subsection \<open>The event loop\<close>

text \<open>
  \<open>Call\<close>: someone calls \<^verbatim>\<open>downloadModel\<close>. \<open>Sample\<close>, \<open>Resolve\<close>,
  \<open>Reject\<close>: the fetch of the closure at that address calls its
  \<^verbatim>\<open>progress_callback\<close>, fulfils or rejects its promise. \<open>Fire\<close>: a timer that
  is due runs. \<open>Tick\<close>: time passes. An event that cannot happen in a state has no
  successor.
\<close>

datatype event =
    Call string string "callback option"
  | Sample nat sample
  | Resolve nat nat
  | Reject nat thrown
  | Fire nat
  | Tick int

fun step :: "state \<Rightarrow> event \<Rightarrow> state option" where
  "step st (Call m task onProgress) = Some (downloadModel m task onProgress st)"
| "step st (Sample a s) =
     (case inflight st a of None \<Rightarrow> None | Some d \<Rightarrow> Some (on_sample a d s st))"
| "step st (Resolve a model) =
     (case inflight st a of None \<Rightarrow> None | Some d \<Rightarrow> Some (on_resolve a d model st))"
| "step st (Reject a e) =
     (case inflight st a of None \<Rightarrow> None | Some d \<Rightarrow> Some (catch_block a d e st))"
| "step st (Fire t) =
     (case timers st t of
        None \<Rightarrow> None
      | Some (due, act) \<Rightarrow>
          if clock st < due then None
          else Some (run_timer act (st\<lparr>timers := (timers st)(t := None)\<rparr>)))"
| "step st (Tick ms) = (if ms < 0 then None else Some (st\<lparr>clock := clock st + ms\<rparr>))"

fun run :: "state \<Rightarrow> event list \<Rightarrow> state option" where
  "run st [] = Some st"
| "run st (ev # evs) = (case step st ev of None \<Rightarrow> None | Some st' \<Rightarrow> run st' evs)"

inductive reachable :: "state \<Rightarrow> bool" where
  reachable_init: "reachable init"
| reachable_step: "reachable st \<Longrightarrow> step st ev = Some st' \<Longrightarrow> reachable st'"

subsection \<open>Vocabulary of the statements\<close>

definition terminal :: "status \<Rightarrow> bool" where
  "terminal s = (s = Completed \<or> s = Error)"

text \<open>No registered callback ever throws.\<close>

definition quiet :: "state \<Rightarrow> bool" where
  "quiet st = (\<forall>m cbs. callbacks st m = Some cbs \<longrightarrow> (\<forall>cb\<in>set cbs. \<forall>p. cb_run cb p = None))"

text \<open>
  What every reachable state satisfies: a closure that awaits its fetch has an object
  that was created and is in status \<open>Downloading\<close>; an entry of the map refers to an
  object that was created; no object that was created is in status \<open>Pending\<close>.
\<close>

definition well_formed :: "state \<Rightarrow> bool" where
  "well_formed st =
     ((\<forall>a d. inflight st a = Some d \<longrightarrow> a < next_ref st \<and> status (heap st a) = Downloading)
      \<and> (\<forall>m a. activeDownloads st m = Some a \<longrightarrow> a < next_ref st)
      \<and> (\<forall>a<next_ref st. status (heap st a) \<noteq> Pending))"

text \<open>The calls of \<^verbatim>\<open>pipeline\<close> made so far for an identity.\<close>

definition calls_for :: "state \<Rightarrow> string \<Rightarrow> nat" where
  "calls_for st m = length (filter (\<lambda>c. snd c = m) (pipeline_calls st))"

text \<open>The event is the settling of the fetch at that address.\<close>

fun settles :: "event \<Rightarrow> nat \<Rightarrow> bool" where
  "settles (Resolve b model) a = (b = a)"
| "settles (Reject b e) a = (b = a)"
| "settles ev a = False"

text \<open>
  The download at address \<open>a\<close> is the only one of identity \<open>m\<close>, and nothing is
  about to evict it.
\<close>

definition sole_fetch :: "state \<Rightarrow> string \<Rightarrow> nat \<Rightarrow> bool" where
  "sole_fetch st m a =
     (activeDownloads st m = Some a \<and> a < next_ref st \<and> status (heap st a) = Downloading
      \<and> (\<forall>b d. inflight st b = Some d \<and> d_modelId d = m \<longrightarrow> b = a)
      \<and> (\<forall>t due. timers st t \<noteq> Some (due, Evict m)))"

text \<open>The event is a call of \<^verbatim>\<open>downloadModel\<close> for that identity.\<close>

fun calls :: "event \<Rightarrow> string \<Rightarrow> bool" where
  "calls (Call m' task onProgress) m = (m' = m)"
| "calls ev m = False"

text \<open>
  The download at address \<open>a\<close> has settled and its object \<open>p\<close> is the entry of
  identity \<open>m\<close>; no closure fetches for the identity, and no eviction timer for it is
  pending but the one numbered \<open>k\<close>.
\<close>

definition resting :: "state \<Rightarrow> string \<Rightarrow> nat \<Rightarrow> DownloadProgress \<Rightarrow> nat \<Rightarrow> bool" where
  "resting st m a p k =
     (activeDownloads st m = Some a \<and> a < next_ref st \<and> heap st a = p \<and> inflight st a = None
      \<and> (\<forall>b d. inflight st b = Some d \<longrightarrow> d_modelId d \<noteq> m)
      \<and> (\<forall>t due. timers st t = Some (due, Evict m) \<longrightarrow> t = k))"

text \<open>
  One fetch lifetime seen from its closure: the samples with the reading of
  \<^verbatim>\<open>Date.now()\<close> at each, and the object as recorded after each sample that passes
  the test of \<^verbatim>\<open>progressTracker\<close>.
\<close>

fun track :: "download \<Rightarrow> DownloadProgress \<Rightarrow> (int \<times> sample) list \<Rightarrow> DownloadProgress list" where
  "track d p [] = []"
| "track d p ((now, s) # rest) =
     (if tracked s then
        (case progressTracker now d p s of (d', p') \<Rightarrow> p' # track d' p' rest)
      else track d p rest)"

text \<open>\<^verbatim>\<open>(loaded / total) * 100\<close> for a sample whose total is \<open>T\<close>, not zero.\<close>

definition percent :: "int \<Rightarrow> sample \<Rightarrow> jsnum" where
  "percent T s = Finite (of_int (s_loaded s) / of_int T * 100)"

text \<open>Concrete callbacks and samples for the scenarios below.\<close>

definition recorder :: "nat \<Rightarrow> callback" where
  "recorder i = \<lparr>cb_id = i, cb_run = (\<lambda>_. None)\<rparr>"

definition thrower :: "nat \<Rightarrow> callback" where
  "thrower i = \<lparr>cb_id = i, cb_run = (\<lambda>_. Some (ErrorObj ''boom''))\<rparr>"

definition bytes :: "int \<Rightarrow> int \<Rightarrow> sample" where
  "bytes l t = \<lparr>s_status = ''progress'', s_file = Some ''model.onnx'', s_loaded = l, s_total = t\<rparr>"

text \<open>What is observed after a sequence of events from the initial state.\<close>

definition object_after :: "event list \<Rightarrow> nat \<Rightarrow> DownloadProgress option" where
  "object_after evs a = map_option (\<lambda>st. heap st a) (run init evs)"

definition progress_after :: "event list \<Rightarrow> string \<Rightarrow> DownloadProgress option" where
  "progress_after evs m = (case run init evs of None \<Rightarrow> None | Some st \<Rightarrow> getProgress st m)"

definition fetching_after :: "event list \<Rightarrow> nat \<Rightarrow> string option" where
  "fetching_after evs a =
     (case run init evs of None \<Rightarrow> None | Some st \<Rightarrow> map_option d_modelId (inflight st a))"

definition notified_after :: "event list \<Rightarrow> (nat \<times> status) list option" where
  "notified_after evs = map_option (\<lambda>st. map (\<lambda>(i, p). (i, status p)) (notified st)) (run init evs)"

definition timer_after :: "event list \<Rightarrow> nat \<Rightarrow> (int \<times> timer_action) option" where
  "timer_after evs t = (case run init evs of None \<Rightarrow> None | Some st \<Rightarrow> timers st t)"

section \<open>Properties\<close>

lemmas manager_defs =
  getProgress_def registered_def addProgressCallback_def register_def notifyProgress_def
  setTimeout_def settle_def error_or_default_def checkStatus_def waitForDownload_def
  on_sample_def set_status_def finish_def error_message_def catch_block_def on_resolve_def
  joinable_def start_def downloadModel_def evict_def

lemmas scenario_defs =
  manager_defs init_def fresh_def tracked_def progressTracker_def js_div_def recorder_def
  thrower_def bytes_def object_after_def progress_after_def fetching_after_def
  notified_after_def timer_after_def

subsection \<open>Runs\<close>

lemma run_append:
  "run st (xs @ ys) = (case run st xs of None \<Rightarrow> None | Some s \<Rightarrow> run s ys)"
  by (induction xs arbitrary: st) (simp_all split: option.splits)

lemma run_trans:
  assumes "run st xs = Some s" and "run s ys = Some s'"
  shows "run st (xs @ ys) = Some s'"
  using assms by (simp add: run_append)

lemma run_reachable:
  assumes "reachable st" and "run st evs = Some st'"
  shows "reachable st'"
  using assms
  by (induction evs arbitrary: st) (auto split: option.splits intro: reachable_step)

lemma timer_keeps_calls:
  "pipeline_calls (run_timer act st) = pipeline_calls st"
  by (cases act)
    (simp_all add: evict_def checkStatus_def settle_def setTimeout_def split: option.splits)

subsection \<open>Notifications and settling\<close>

lemma forEach_cb_quiet:
  assumes "\<forall>cb\<in>set cbs. cb_run cb p = None"
  shows "forEach_cb cbs p seen = (None, seen @ map (\<lambda>cb. (cb_id cb, p)) cbs)"
  using assms by (induction cbs arbitrary: seen) simp_all

lemma forEach_cb_throw:
  assumes "\<forall>c\<in>set pre. cb_run c p = None" and "cb_run cb p = Some e"
  shows "forEach_cb (pre @ cb # post) p seen = (Some e, seen @ map (\<lambda>c. (cb_id c, p)) (pre @ [cb]))"
  using assms by (induction pre arbitrary: seen) simp_all

lemma notifyProgress_eq:
  "notifyProgress m p st
     = (fst (forEach_cb (registered st m) p (notified st)),
        st\<lparr>notified := snd (forEach_cb (registered st m) p (notified st))\<rparr>)"
  by (simp add: notifyProgress_def split: prod.splits)

lemma notifyProgress_quiet:
  assumes "\<forall>cb\<in>set (registered st m). cb_run cb p = None"
  shows "notifyProgress m p st
           = (None, st\<lparr>notified := notified st @ map (\<lambda>cb. (cb_id cb, p)) (registered st m)\<rparr>)"
  using assms by (simp add: notifyProgress_def forEach_cb_quiet)

lemma registered_simps:
  "registered (st\<lparr>heap := h\<rparr>) m = registered st m"
  "registered (st\<lparr>status_writes := w\<rparr>) m = registered st m"
  "registered (st\<lparr>notified := n\<rparr>) m = registered st m"
  "registered (st\<lparr>inflight := i\<rparr>) m = registered st m"
  "registered (st\<lparr>timers := t\<rparr>) m = registered st m"
  "registered (st\<lparr>next_timer := k\<rparr>) m = registered st m"
  "registered (st\<lparr>settled := r\<rparr>) m = registered st m"
  "registered (st\<lparr>next_promise := q\<rparr>) m = registered st m"
  by (simp_all add: registered_def)

lemma quiet_registered:
  assumes "quiet st"
  shows "\<forall>cb\<in>set (registered st m). \<forall>p. cb_run cb p = None"
proof (cases "callbacks st m")
  case None
  then show ?thesis by (simp add: registered_def)
next
  case (Some cbs)
  with assms show ?thesis
    unfolding quiet_def registered_def by (metis option.simps(5))
qed

lemmas settle_defs = on_resolve_def catch_block_def set_status_def finish_def settle_def
  setTimeout_def notifyProgress_eq Let_def

text \<open>With subscribers that do not throw, the two continuations run straight through.\<close>

lemma catch_block_quiet:
  assumes "\<forall>cb\<in>set (registered st (d_modelId d)). \<forall>p. cb_run cb p = None"
  shows "catch_block a d e st =
     finish a d (Rejected e)
       (st\<lparr>status_writes := status_writes st @ [(a, Error)],
           heap := (heap st)(a := (heap st a)\<lparr>status := Error, error := Some (error_message e)\<rparr>),
           notified := notified st @
             map (\<lambda>cb. (cb_id cb, (heap st a)\<lparr>status := Error, error := Some (error_message e)\<rparr>))
               (registered st (d_modelId d))\<rparr>)"
  using assms
  by (simp add: catch_block_def set_status_def Let_def notifyProgress_def forEach_cb_quiet
        registered_simps)

lemma on_resolve_quiet:
  assumes "\<forall>cb\<in>set (registered st (d_modelId d)). \<forall>p. cb_run cb p = None"
  shows "on_resolve a d model st =
     finish a d (Resolved (Model model))
       (st\<lparr>status_writes := status_writes st @ [(a, Completed)],
           heap := (heap st)(a := (heap st a)\<lparr>status := Completed, progress := Finite 100\<rparr>),
           notified := notified st @
             map (\<lambda>cb. (cb_id cb, (heap st a)\<lparr>status := Completed, progress := Finite 100\<rparr>))
               (registered st (d_modelId d))\<rparr>)"
  using assms
  by (simp add: on_resolve_def set_status_def Let_def notifyProgress_def forEach_cb_quiet
        registered_simps)

text \<open>
  However the notifications end, a fetch that settles leaves its object in a terminal
  status, sets the eviction timer and settles the promise of its requester.
\<close>

lemma settling_is_terminal_and_schedules_eviction:
  assumes "inflight st a = Some d" and "ev = Resolve a model \<or> ev = Reject a e"
  shows "\<exists>st' res. step st ev = Some st' \<and> terminal (status (heap st' a)) \<and> inflight st' a = None
      \<and> timers st' (next_timer st) = Some (clock st + 5000, Evict (d_modelId d))
      \<and> next_timer st' = next_timer st + 1 \<and> clock st' = clock st
      \<and> settled st' = settled st @ [(d_promise d, res)]"
  using assms by (auto simp: settle_defs terminal_def split: option.splits)

text \<open>Timers keep their number and stay pending until they run; time does not go back.\<close>

lemma step_keeps_timers:
  assumes "step st ev = Some st'"
  shows "next_timer st \<le> next_timer st' \<and> clock st \<le> clock st'
       \<and> (\<forall>k<next_timer st. ev \<noteq> Fire k \<longrightarrow> timers st' k = timers st k)"
proof (cases ev)
  case (Call m task onProgress)
  with assms show ?thesis
    by (cases onProgress) (auto simp: manager_defs Let_def split: option.splits if_splits)
next
  case (Sample a s)
  with assms show ?thesis
    by (auto simp: on_sample_def notifyProgress_eq split: option.splits prod.splits)
next
  case (Resolve a model)
  with assms show ?thesis
    by (auto simp: settle_defs split: option.splits)
next
  case (Reject a e)
  with assms show ?thesis
    by (auto simp: settle_defs split: option.splits)
next
  case (Fire t)
  with assms show ?thesis
  proof (cases "timers st t")
    case None
    with Fire assms show ?thesis by simp
  next
    case (Some da)
    obtain due act where da: "da = (due, act)" by (cases da)
    with Some Fire assms show ?thesis
      by (cases act)
        (auto simp: evict_def checkStatus_def settle_def setTimeout_def getProgress_def
           split: if_splits option.splits)
  qed
next
  case (Tick ms)
  with assms show ?thesis by (auto split: if_splits)
qed

lemma run_keeps_timer:
  assumes "run st evs = Some st'" and "k < next_timer st" and "Fire k \<notin> set evs"
  shows "timers st' k = timers st k \<and> clock st \<le> clock st'"
  using assms
proof (induction evs arbitrary: st)
  case Nil
  then show ?case by simp
next
  case (Cons ev evs)
  from Cons.prems(1) obtain s where s: "step st ev = Some s" and rest: "run s evs = Some st'"
    by (auto split: option.splits)
  from step_keeps_timers [OF s] Cons.prems(2,3)
  have "next_timer st \<le> next_timer s" "clock st \<le> clock s" "timers s k = timers st k"
    by auto
  moreover from Cons.IH [OF rest] Cons.prems(2,3) \<open>next_timer st \<le> next_timer s\<close>
  have "timers st' k = timers s k \<and> clock s \<le> clock st'" by simp
  ultimately show ?case by simp
qed

subsection \<open>One fetch per identity\<close>

text \<open>
  A call that finds the identity's entry in status \<open>Downloading\<close> registers its
  callback, waits, and starts no fetch.
\<close>

lemma join_starts_no_fetch:
  assumes "activeDownloads st m = Some a" and "status (heap st a) = Downloading"
  shows "\<exists>st'. step st (Call m task onProgress) = Some st'
      \<and> pipeline_calls st' = pipeline_calls st \<and> inflight st' = inflight st
      \<and> timers st' (next_timer st) = Some (clock st + 100, Poll (next_promise st) m)"
  using assms by (cases onProgress) (auto simp: manager_defs Let_def)

text \<open>
  A download is the only one of its identity when the entry of the map is its object,
  in status \<open>Downloading\<close>, no other closure fetches for the identity, and no
  eviction timer for the identity is pending. No event but the settling of its own fetch
  ends this, and none calls \<^verbatim>\<open>pipeline\<close> for the identity.
\<close>

lemma sole_fetch_step:
  assumes "sole_fetch st m a" and "step st ev = Some st'" and "\<not> settles ev a"
  shows "sole_fetch st' m a \<and> calls_for st' m = calls_for st m"
proof (cases ev)
  case (Call m' task onProgress)
  with assms show ?thesis
    by (cases onProgress)
      (auto simp: sole_fetch_def calls_for_def manager_defs Let_def
         split: option.splits if_splits)
next
  case (Sample b s)
  with assms show ?thesis
    by (auto simp: sole_fetch_def calls_for_def on_sample_def notifyProgress_eq
          progressTracker_def Let_def split: option.splits if_splits)
next
  case (Resolve b model)
  with assms show ?thesis
    by (auto simp: sole_fetch_def calls_for_def settle_defs split: option.splits if_splits)
next
  case (Reject b e)
  with assms show ?thesis
    by (auto simp: sole_fetch_def calls_for_def settle_defs split: option.splits if_splits)
next
  case (Fire t)
  show ?thesis
  proof (cases "timers st t")
    case None
    with Fire assms show ?thesis by simp
  next
    case (Some da)
    obtain due act where "da = (due, act)" by (cases da)
    with Some Fire assms show ?thesis
      by (cases act)
        (auto simp: sole_fetch_def calls_for_def evict_def checkStatus_def settle_def
           setTimeout_def getProgress_def split: if_splits option.splits)
  qed
next
  case (Tick ms)
  with assms show ?thesis by (auto simp: sole_fetch_def calls_for_def split: if_splits)
qed

lemma sole_fetch_run:
  assumes "sole_fetch st m a" and "run st evs = Some st'" and "\<forall>ev\<in>set evs. \<not> settles ev a"
  shows "sole_fetch st' m a \<and> calls_for st' m = calls_for st m"
  using assms
proof (induction evs arbitrary: st)
  case Nil
  then show ?case by simp
next
  case (Cons ev evs)
  from Cons.prems(2) obtain s where s: "step st ev = Some s" and rest: "run s evs = Some st'"
    by (auto split: option.splits)
  from sole_fetch_step [OF Cons.prems(1) s] Cons.prems(3)
  have "sole_fetch s m a" and "calls_for s m = calls_for st m" by simp_all
  with Cons.IH [OF _ rest] Cons.prems(3) show ?case by simp
qed

lemma first_call_is_sole_fetch:
  assumes "\<not> joinable st m" and "\<forall>b d. inflight st b = Some d \<longrightarrow> d_modelId d \<noteq> m"
    and "\<forall>t due. timers st t \<noteq> Some (due, Evict m)"
  shows "\<exists>st'. step st (Call m task onProgress) = Some st' \<and> sole_fetch st' m (next_ref st)
           \<and> calls_for st' m = calls_for st m + 1"
  using assms
  by (cases onProgress)
    (auto simp: sole_fetch_def calls_for_def manager_defs fresh_def Let_def split: option.splits)

text \<open>
  So deduplication holds for a first call that finds no fetch running for the identity
  and no eviction timer pending for it: whatever follows until its fetch settles,
  further calls for the identity included, \<^verbatim>\<open>pipeline\<close> is called for the identity
  exactly once, and the identity stays in status \<open>Downloading\<close>.
\<close>

lemma dedup_without_pending_eviction:
  assumes "\<not> joinable st m" and "\<forall>b d. inflight st b = Some d \<longrightarrow> d_modelId d \<noteq> m"
    and "\<forall>t due. timers st t \<noteq> Some (due, Evict m)"
    and "run st (Call m task onProgress # evs) = Some st'"
    and "\<forall>ev\<in>set evs. \<not> settles ev (next_ref st)"
  shows "calls_for st' m = calls_for st m + 1 \<and> isDownloading st' m"
proof -
  from first_call_is_sole_fetch [OF assms(1-3), of task onProgress] assms(4)
  obtain s where "sole_fetch s m (next_ref st)" and "calls_for s m = calls_for st m + 1"
    and "run s evs = Some st'"
    by auto
  with sole_fetch_run [OF _ _ assms(5), of s m st'] show ?thesis
    by (simp add: sole_fetch_def isDownloading_def getProgress_def)
qed

text \<open>
  C1. For every identity, calls of \<^verbatim>\<open>downloadModel\<close> made before the first of
  them has reached a terminal status should lead to exactly one call of
  \<^verbatim>\<open>pipeline\<close>. The scenario below breaks this. A first download of \<open>m1\<close> ends at
  time 0 and leaves its eviction timer, due at 5000. At 4000 a second call finds the
  terminal entry and starts fetch 1. At 5000 the timer of the first download runs and
  deletes the entry of the second, which is still in status \<open>Downloading\<close>. A third
  call then finds no entry and starts fetch 2 while fetch 1 is running: two calls made
  before the first of them ended, and two fetches in flight for \<open>m1\<close>.
\<close>

theorem stale_eviction_lets_second_fetch_start:
  "map_option pipeline_calls
     (run init [Call ''m1'' ''asr'' None, Resolve 0 7, Tick 4000, Call ''m1'' ''asr'' None,
        Tick 1000, Fire 0, Call ''m1'' ''asr'' None])
     = Some [(''asr'', ''m1''), (''asr'', ''m1''), (''asr'', ''m1'')]
   \<and> fetching_after [Call ''m1'' ''asr'' None, Resolve 0 7, Tick 4000, Call ''m1'' ''asr'' None,
        Tick 1000, Fire 0, Call ''m1'' ''asr'' None] 1 = Some ''m1''
   \<and> fetching_after [Call ''m1'' ''asr'' None, Resolve 0 7, Tick 4000, Call ''m1'' ''asr'' None,
        Tick 1000, Fire 0, Call ''m1'' ''asr'' None] 2 = Some ''m1''
   \<and> map_option status (object_after [Call ''m1'' ''asr'' None, Resolve 0 7, Tick 4000, Call ''m1'' ''asr'' None,
        Tick 1000, Fire 0] 1) = Some Downloading"
  by (simp add: scenario_defs)

subsection \<open>What a joiner receives\<close>

text \<open>
  A poll that finds the identity's entry in status \<open>Completed\<close> fulfils the waiting
  caller's promise with \<^verbatim>\<open>null\<close>, in every state: the entry holds no model.
\<close>

lemma poll_reads_completed:
  assumes "activeDownloads st m = Some a" and "status (heap st a) = Completed"
    and "timers st t = Some (due, Poll pr m)" and "due \<le> clock st"
  shows "step st (Fire t) =
     Some (st\<lparr>timers := (timers st)(t := None), settled := settled st @ [(pr, Resolved Null)]\<rparr>)"
  using assms by (simp add: checkStatus_def getProgress_def settle_def)

text \<open>
  C2. A caller that joins a running download should be settled with the outcome of the
  original requester: on success, the same model. In the scenario the first caller is
  fulfilled with model 7 and the joiner, at its next poll, with \<^verbatim>\<open>null\<close>.
\<close>

theorem joiner_resolves_with_null:
  "map_option settled
     (run init [Call ''m1'' ''asr'' (Some (recorder 0)), Call ''m1'' ''asr'' (Some (recorder 1)),
        Sample 0 (bytes 500 1000), Sample 0 (bytes 1000 1000), Resolve 0 7, Tick 100, Fire 0])
   = Some [(0, Resolved (Model 7)), (1, Resolved Null)]"
  by (simp add: scenario_defs)

subsection \<open>A call during the grace window\<close>

text \<open>
  C3, as the code has it. If \<^verbatim>\<open>downloadModel\<close> is called for an identity whose
  entry exists and is terminal, the test for \<^verbatim>\<open>'downloading'\<close> fails and the call
  starts a new fetch: \<^verbatim>\<open>pipeline\<close> is called once more, a fresh object in status
  \<open>Downloading\<close> replaces the terminal one in the map, the callback is appended to the
  identity's list, and the caller is the requester of the new fetch. Nothing is waited
  for, nothing is settled and nobody is notified by the call.
\<close>

theorem call_on_terminal_entry_starts_new_fetch:
  assumes "activeDownloads st m = Some a" and "terminal (status (heap st a))"
  shows "\<exists>st'. step st (Call m task onProgress) = Some st'
      \<and> pipeline_calls st' = pipeline_calls st @ [(task, m)]
      \<and> activeDownloads st' m = Some (next_ref st)
      \<and> getProgress st' m = Some (fresh m)
      \<and> inflight st' (next_ref st) =
          Some \<lparr>d_modelId = m, d_task = task, lastLoaded = 0, lastTime = clock st,
                d_promise = next_promise st\<rparr>
      \<and> registered st' m = registered st m @ (case onProgress of None \<Rightarrow> [] | Some cb \<Rightarrow> [cb])
      \<and> timers st' = timers st \<and> settled st' = settled st \<and> notified st' = notified st"
  using assms by (cases onProgress) (auto simp: manager_defs terminal_def Let_def)

theorem call_on_terminal_entry_starts_new_fetch_witness:
  "map_option pipeline_calls
     (run init [Call ''m2'' ''asr'' None, Reject 0 (ErrorObj ''network timeout''),
        Call ''m2'' ''asr'' None])
   = Some [(''asr'', ''m2''), (''asr'', ''m2'')]"
proof -
  obtain st where st: "run init [Call ''m2'' ''asr'' None, Reject 0 (ErrorObj ''network timeout'')] = Some st"
    and entry: "activeDownloads st ''m2'' = Some 0"
    and failed: "terminal (status (heap st 0))"
    and calls: "pipeline_calls st = [(''asr'', ''m2'')]"
    by (simp add: scenario_defs terminal_def)
  from call_on_terminal_entry_starts_new_fetch [OF entry failed, of "''asr''" None]
  obtain st' where "step st (Call ''m2'' ''asr'' None) = Some st'"
    and "pipeline_calls st' = pipeline_calls st @ [(''asr'', ''m2'')]"
    by blast
  with st calls show ?thesis
    by (simp add: scenario_defs)
qed

text \<open>
  What the specification says instead (no new fetch, the terminal notification replayed
  to the caller) does not hold: the entry is \<open>Completed\<close>, the call makes the second call of
  \<^verbatim>\<open>pipeline\<close>, and callback 1 is not notified.
\<close>

theorem grace_window_call_counterexample:
  "map_option status (progress_after [Call ''m1'' ''asr'' (Some (recorder 0)), Resolve 0 7] ''m1'')
     = Some Completed
   \<and> map_option pipeline_calls (run init [Call ''m1'' ''asr'' (Some (recorder 0)), Resolve 0 7])
     = Some [(''asr'', ''m1'')]
   \<and> map_option pipeline_calls
       (run init [Call ''m1'' ''asr'' (Some (recorder 0)), Resolve 0 7,
          Call ''m1'' ''asr'' (Some (recorder 1))])
     = Some [(''asr'', ''m1''), (''asr'', ''m1'')]
   \<and> map_option status (progress_after [Call ''m1'' ''asr'' (Some (recorder 0)), Resolve 0 7,
          Call ''m1'' ''asr'' (Some (recorder 1))] ''m1'')
     = Some Downloading
   \<and> notified_after [Call ''m1'' ''asr'' (Some (recorder 0)), Resolve 0 7,
          Call ''m1'' ''asr'' (Some (recorder 1))] = Some [(0, Completed)]"
  by (simp add: scenario_defs)

subsection \<open>The status of a download\<close>

lemma well_formed_init: "well_formed init"
  by (simp add: well_formed_def init_def)

lemma progressTracker_status: "status (snd (progressTracker now d p s)) = status p"
  by (simp add: progressTracker_def Let_def)

lemma well_formed_step:
  assumes "well_formed st" and "step st ev = Some st'"
  shows "well_formed st'"
proof (cases ev)
  case (Call m task onProgress)
  with assms show ?thesis
    by (cases onProgress)
      (auto simp: well_formed_def manager_defs fresh_def Let_def less_Suc_eq
         split: option.splits if_splits)
next
  case (Sample a s)
  with assms show ?thesis
    by (auto simp: well_formed_def on_sample_def notifyProgress_eq progressTracker_def Let_def
          split: option.splits if_splits)
next
  case (Resolve a model)
  with assms show ?thesis
    by (auto simp: well_formed_def settle_defs split: option.splits if_splits)
next
  case (Reject a e)
  with assms show ?thesis
    by (auto simp: well_formed_def settle_defs split: option.splits if_splits)
next
  case (Fire t)
  show ?thesis
  proof (cases "timers st t")
    case None
    with Fire assms show ?thesis by simp
  next
    case (Some da)
    obtain due act where "da = (due, act)" by (cases da)
    with Some Fire assms show ?thesis
      by (cases act)
        (auto simp: well_formed_def evict_def checkStatus_def settle_def setTimeout_def
           getProgress_def split: if_splits option.splits)
  qed
next
  case (Tick ms)
  with assms show ?thesis by (auto simp: well_formed_def split: if_splits)
qed

lemma reachable_well_formed: "reachable st \<Longrightarrow> well_formed st"
  by (induction rule: reachable.induct) (auto intro: well_formed_init well_formed_step)

text \<open>What one event does to the status of the objects, to the log of status assignments and to the entries of the map.\<close>

lemma step_status_forward:
  assumes "well_formed st" and "step st ev = Some st'" and "a < next_ref st"
  shows "status (heap st' a) = status (heap st a)
       \<or> (status (heap st a) = Downloading \<and> terminal (status (heap st' a)))"
proof (cases ev)
  case (Call m task onProgress)
  with assms show ?thesis
    by (cases onProgress)
      (auto simp: manager_defs Let_def split: option.splits if_splits)
next
  case (Sample b s)
  with assms show ?thesis
    by (auto simp: on_sample_def notifyProgress_eq progressTracker_def Let_def
          split: option.splits if_splits)
next
  case (Resolve b model)
  with assms show ?thesis
    by (auto simp: well_formed_def terminal_def settle_defs split: option.splits if_splits)
next
  case (Reject b e)
  with assms show ?thesis
    by (auto simp: well_formed_def terminal_def settle_defs split: option.splits if_splits)
next
  case (Fire t)
  show ?thesis
  proof (cases "timers st t")
    case None
    with Fire assms show ?thesis by simp
  next
    case (Some da)
    obtain due act where "da = (due, act)" by (cases da)
    with Some Fire assms show ?thesis
      by (cases act)
        (auto simp: evict_def checkStatus_def settle_def setTimeout_def getProgress_def
           split: if_splits option.splits)
  qed
next
  case (Tick ms)
  with assms show ?thesis by (auto split: if_splits)
qed

lemma step_creates_downloading:
  assumes "step st ev = Some st'" and "next_ref st \<le> a" and "a < next_ref st'"
  shows "status (heap st' a) = Downloading"
proof (cases ev)
  case (Call m task onProgress)
  with assms show ?thesis
    by (cases onProgress)
      (auto simp: manager_defs fresh_def Let_def split: option.splits if_splits)
next
  case (Sample b s)
  with assms show ?thesis
    by (auto simp: on_sample_def notifyProgress_eq progressTracker_def Let_def
          split: option.splits if_splits)
next
  case (Resolve b model)
  with assms show ?thesis
    by (auto simp: settle_defs split: option.splits if_splits)
next
  case (Reject b e)
  with assms show ?thesis
    by (auto simp: settle_defs split: option.splits if_splits)
next
  case (Fire t)
  show ?thesis
  proof (cases "timers st t")
    case None
    with Fire assms show ?thesis by simp
  next
    case (Some da)
    obtain due act where "da = (due, act)" by (cases da)
    with Some Fire assms show ?thesis
      by (cases act)
        (auto simp: evict_def checkStatus_def settle_def setTimeout_def getProgress_def
           split: if_splits option.splits)
  qed
next
  case (Tick ms)
  with assms show ?thesis by (auto split: if_splits)
qed

lemma step_writes_once:
  assumes "quiet st" and "step st ev = Some st'"
  shows "\<exists>ws. status_writes st' = status_writes st @ ws \<and> length ws \<le> 1
           \<and> (\<forall>(a, s)\<in>set ws. status (heap st' a) = s)"
proof (cases ev)
  case (Call m task onProgress)
  with assms(2) show ?thesis
    by (cases onProgress)
      (auto simp: manager_defs fresh_def Let_def split: option.splits if_splits)
next
  case (Sample b s)
  with assms(2) show ?thesis
    by (auto simp: on_sample_def notifyProgress_eq progressTracker_def Let_def
          split: option.splits if_splits)
next
  case (Resolve b model)
  with assms(2) obtain d where "inflight st b = Some d" and "st' = on_resolve b d model st"
    by (auto split: option.splits)
  then show ?thesis
    by (simp add: on_resolve_quiet [OF quiet_registered [OF assms(1)]] finish_def settle_def
          setTimeout_def)
next
  case (Reject b e)
  with assms(2) obtain d where "inflight st b = Some d" and "st' = catch_block b d e st"
    by (auto split: option.splits)
  then show ?thesis
    by (simp add: catch_block_quiet [OF quiet_registered [OF assms(1)]] finish_def settle_def
          setTimeout_def)
next
  case (Fire t)
  show ?thesis
  proof (cases "timers st t")
    case None
    with Fire assms show ?thesis by simp
  next
    case (Some da)
    obtain due act where "da = (due, act)" by (cases da)
    with Some Fire assms(2) show ?thesis
      by (cases act)
        (auto simp: evict_def checkStatus_def settle_def setTimeout_def getProgress_def
           split: if_splits option.splits)
  qed
next
  case (Tick ms)
  with assms(2) show ?thesis by (auto split: if_splits)
qed

lemma step_entry_replaced:
  assumes "step st ev = Some st'" and "activeDownloads st m = Some a"
    and "activeDownloads st' m \<noteq> Some a"
  shows "(activeDownloads st' m = None \<and> (\<exists>t. ev = Fire t))
       \<or> (activeDownloads st' m = Some (next_ref st) \<and> status (heap st a) \<noteq> Downloading
            \<and> (\<exists>task onProgress. ev = Call m task onProgress))"
proof (cases ev)
  case (Call m' task onProgress)
  with assms show ?thesis
    by (cases onProgress)
      (auto simp: manager_defs fresh_def Let_def split: option.splits if_splits)
next
  case (Sample b s)
  with assms show ?thesis
    by (auto simp: on_sample_def notifyProgress_eq progressTracker_def Let_def
          split: option.splits if_splits)
next
  case (Resolve b model)
  with assms show ?thesis
    by (auto simp: settle_defs split: option.splits if_splits)
next
  case (Reject b e)
  with assms show ?thesis
    by (auto simp: settle_defs split: option.splits if_splits)
next
  case (Fire t)
  show ?thesis
  proof (cases "timers st t")
    case None
    with Fire assms show ?thesis by simp
  next
    case (Some da)
    obtain due act where "da = (due, act)" by (cases da)
    with Some Fire assms show ?thesis
      by (cases act)
        (auto simp: evict_def checkStatus_def settle_def setTimeout_def getProgress_def
           split: if_splits option.splits)
  qed
next
  case (Tick ms)
  with assms show ?thesis by (auto split: if_splits)
qed

text \<open>
  C4, as the code has it. Every \<^verbatim>\<open>DownloadProgress\<close> object is created in status
  \<open>Downloading\<close>; \<open>Pending\<close> is never assigned. As long as no subscriber throws,
  the status of an object only moves forward, from \<open>Downloading\<close> to \<open>Completed\<close>
  or \<open>Error\<close>: in every reachable state an event leaves the status of an existing
  object as it is or takes it from \<open>Downloading\<close> to a terminal status, it assigns a
  status at most once, and that assignment is the status the object then has. The entry
  of an identity stops referring to an object only when an eviction removes it or when a
  new call of \<^verbatim>\<open>downloadModel\<close>, finding the object not in status
  \<open>Downloading\<close>, installs a newly created one; no eviction is needed in between.
\<close>

theorem status_only_moves_forward:
  assumes "reachable st" and "quiet st" and "step st ev = Some st'"
  shows "(\<forall>a<next_ref st. status (heap st' a) = status (heap st a)
            \<or> (status (heap st a) = Downloading \<and> terminal (status (heap st' a))))
       \<and> (\<forall>a. next_ref st \<le> a \<and> a < next_ref st' \<longrightarrow> status (heap st' a) = Downloading)
       \<and> (\<forall>a<next_ref st'. status (heap st' a) \<noteq> Pending)
       \<and> (\<exists>ws. status_writes st' = status_writes st @ ws \<and> length ws \<le> 1
             \<and> (\<forall>(a, s)\<in>set ws. status (heap st' a) = s))
       \<and> (\<forall>m a. activeDownloads st m = Some a \<and> activeDownloads st' m \<noteq> Some a \<longrightarrow>
             (activeDownloads st' m = None \<and> (\<exists>t. ev = Fire t))
           \<or> (activeDownloads st' m = Some (next_ref st) \<and> status (heap st a) \<noteq> Downloading
                \<and> (\<exists>task onProgress. ev = Call m task onProgress)))"
proof -
  from assms(1) have wf: "well_formed st"
    by (rule reachable_well_formed)
  then have wf': "well_formed st'"
    using assms(3) by (rule well_formed_step)
  have "\<forall>a<next_ref st. status (heap st' a) = status (heap st a)
            \<or> (status (heap st a) = Downloading \<and> terminal (status (heap st' a)))"
    using step_status_forward [OF wf assms(3)] by blast
  moreover have "\<forall>a. next_ref st \<le> a \<and> a < next_ref st' \<longrightarrow> status (heap st' a) = Downloading"
    using step_creates_downloading [OF assms(3)] by blast
  moreover have "\<forall>a<next_ref st'. status (heap st' a) \<noteq> Pending"
    using wf' by (simp add: well_formed_def)
  moreover note step_writes_once [OF assms(2,3)]
  moreover have "\<forall>m a. activeDownloads st m = Some a \<and> activeDownloads st' m \<noteq> Some a \<longrightarrow>
             (activeDownloads st' m = None \<and> (\<exists>t. ev = Fire t))
           \<or> (activeDownloads st' m = Some (next_ref st) \<and> status (heap st a) \<noteq> Downloading
                \<and> (\<exists>task onProgress. ev = Call m task onProgress))"
    using step_entry_replaced [OF assms(3)] by blast
  ultimately show ?thesis by blast
qed

theorem status_only_moves_forward_witness:
  "reachable (downloadModel ''m1'' ''asr'' (Some (recorder 0)) init)
   \<and> quiet (downloadModel ''m1'' ''asr'' (Some (recorder 0)) init)
   \<and> map_option status_writes
       (step (downloadModel ''m1'' ''asr'' (Some (recorder 0)) init) (Resolve 0 7))
     = Some [(0, Downloading), (0, Completed)]
   \<and> map_option (\<lambda>st. status (heap st 0))
       (step (downloadModel ''m1'' ''asr'' (Some (recorder 0)) init) (Resolve 0 7))
     = Some Completed"
proof -
  let ?st = "downloadModel ''m1'' ''asr'' (Some (recorder 0)) init"
  have "step init (Call ''m1'' ''asr'' (Some (recorder 0))) = Some ?st"
    by simp
  with reachable_init have r: "reachable ?st"
    by (rule reachable_step)
  have q: "quiet ?st"
    by (simp add: quiet_def scenario_defs)
  obtain st' where s: "step ?st (Resolve 0 7) = Some st'"
    and w: "status_writes ?st = [(0, Downloading)]" and n: "next_ref ?st = 1"
    and now: "status_writes st' = [(0, Downloading), (0, Completed)]"
    by (simp add: scenario_defs)
  from status_only_moves_forward [OF r q s]
  have "\<exists>ws. status_writes st' = status_writes ?st @ ws \<and> length ws \<le> 1
           \<and> (\<forall>(a, s)\<in>set ws. status (heap st' a) = s)"
    by blast
  with w now have "status (heap st' 0) = Completed"
    by auto
  with r q s now show ?thesis by simp
qed

text \<open>
  The specification's wording does not hold, twice: the state made by the first call is in status
  \<open>Downloading\<close> at once, with no \<open>Pending\<close> before it; and the entry of an
  identity goes from \<open>Completed\<close> back to \<open>Downloading\<close> by a new call while the
  eviction timer of the first download is still pending.
\<close>

theorem created_downloading_counterexample:
  "map_option status (progress_after [Call ''m1'' ''asr'' None] ''m1'') = Some Downloading
   \<and> map_option status_writes (run init [Call ''m1'' ''asr'' None]) = Some [(0, Downloading)]
   \<and> map_option status (progress_after [Call ''m1'' ''asr'' None, Resolve 0 7] ''m1'')
       = Some Completed
   \<and> timer_after [Call ''m1'' ''asr'' None, Resolve 0 7, Call ''m1'' ''asr'' None] 0
       = Some (5000, Evict ''m1'')
   \<and> map_option status
       (progress_after [Call ''m1'' ''asr'' None, Resolve 0 7, Call ''m1'' ''asr'' None] ''m1'')
       = Some Downloading"
  by (simp add: scenario_defs timer_after_def)

subsection \<open>The progress tracker\<close>

text \<open>A sample event applies \<^verbatim>\<open>progressTracker\<close> to the closure and its object.\<close>

lemma sample_step_is_progressTracker:
  assumes "inflight st a = Some d" and "tracked s"
  shows "\<exists>st'. step st (Sample a s) = Some st'
      \<and> (inflight st' a, heap st' a)
          = (Some (fst (progressTracker (clock st) d (heap st a) s)),
             snd (progressTracker (clock st) d (heap st a) s))"
  using assms by (simp add: on_sample_def notifyProgress_def split: prod.splits)

lemma track_loaded: "map loaded (track d p xs) = map s_loaded (filter tracked (map snd xs))"
proof (induction xs arbitrary: d p)
  case Nil
  show ?case by simp
next
  case (Cons x xs)
  obtain now s where x: "x = (now, s)" by (cases x)
  show ?case
  proof (cases "tracked s")
    case True
    then show ?thesis
      using Cons.IH by (simp add: x progressTracker_def Let_def)
  next
    case False
    then show ?thesis using Cons.IH by (simp add: x)
  qed
qed

lemma track_progress:
  assumes "T \<noteq> 0" and "\<forall>x\<in>set xs. s_total (snd x) = T"
  shows "map progress (track d p xs) = map (percent T) (filter tracked (map snd xs))"
  using assms(2)
proof (induction xs arbitrary: d p)
  case Nil
  show ?case by simp
next
  case (Cons x xs)
  obtain now s where x: "x = (now, s)" by (cases x)
  from Cons.prems have T: "s_total s = T" and rest: "\<forall>x\<in>set xs. s_total (snd x) = T"
    by (simp_all add: x)
  show ?case
  proof (cases "tracked s")
    case True
    then show ?thesis
      using Cons.IH [OF rest] T assms(1)
      by (simp add: x progressTracker_def Let_def js_div_def percent_def)
  next
    case False
    then show ?thesis using Cons.IH [OF rest] by (simp add: x)
  qed
qed

lemma percent_mono:
  assumes "0 < T" and "s_loaded a \<le> s_loaded b"
  shows "js_le (percent T a) (percent T b)"
  using assms by (simp add: percent_def divide_right_mono)

text \<open>
  C5, as the code has it. Within one fetch lifetime the recorded \<open>loaded\<close> is the
  \<open>loaded\<close> of the last processed sample, verbatim. So it is non-decreasing across
  sample updates whenever the samples' \<open>loaded\<close> values are non-decreasing, and the
  recorded percentage is then non-decreasing as long as the samples report one total
  \<open>T > 0\<close>.
\<close>

theorem recorded_progress_follows_samples:
  assumes "sorted (map s_loaded (filter tracked (map snd xs)))"
  shows "map loaded (track d p xs) = map s_loaded (filter tracked (map snd xs))
       \<and> sorted (map loaded (track d p xs))
       \<and> (0 < T \<and> (\<forall>x\<in>set xs. s_total (snd x) = T) \<longrightarrow>
            sorted_wrt js_le (map progress (track d p xs)))"
proof (intro conjI impI)
  show "map loaded (track d p xs) = map s_loaded (filter tracked (map snd xs))"
    by (rule track_loaded)
  show "sorted (map loaded (track d p xs))"
    using assms by (simp add: track_loaded)
next
  assume T: "0 < T \<and> (\<forall>x\<in>set xs. s_total (snd x) = T)"
  then have "map progress (track d p xs) = map (percent T) (filter tracked (map snd xs))"
    by (intro track_progress) auto
  moreover have "sorted_wrt js_le (map (percent T) ys)" if "sorted (map s_loaded ys)" for ys
    using that T by (induction ys) (auto simp: percent_mono)
  ultimately show "sorted_wrt js_le (map progress (track d p xs))"
    using assms by simp
qed

theorem recorded_progress_follows_samples_witness:
  "sorted (map s_loaded (filter tracked (map snd [(1000, bytes 500 1000), (2000, bytes 1000 1000)])))
   \<and> map loaded (track \<lparr>d_modelId = ''m1'', d_task = ''asr'', lastLoaded = 0, lastTime = 0, d_promise = 0\<rparr>
        (fresh ''m1'') [(1000, bytes 500 1000), (2000, bytes 1000 1000)]) = [500, 1000]
   \<and> map progress (track \<lparr>d_modelId = ''m1'', d_task = ''asr'', lastLoaded = 0, lastTime = 0, d_promise = 0\<rparr>
        (fresh ''m1'') [(1000, bytes 500 1000), (2000, bytes 1000 1000)]) = [Finite 50, Finite 100]
   \<and> sorted_wrt js_le (map progress (track \<lparr>d_modelId = ''m1'', d_task = ''asr'', lastLoaded = 0, lastTime = 0, d_promise = 0\<rparr>
        (fresh ''m1'') [(1000, bytes 500 1000), (2000, bytes 1000 1000)]))"
  using recorded_progress_follows_samples [of "[(1000, bytes 500 1000), (2000, bytes 1000 1000)]"
      "\<lparr>d_modelId = ''m1'', d_task = ''asr'', lastLoaded = 0, lastTime = 0, d_promise = 0\<rparr>"
      "fresh ''m1''" 1000]
  by (simp add: bytes_def tracked_def progressTracker_def js_div_def fresh_def Let_def)

text \<open>
  Without the condition on the samples the property does not hold: a fetch that reports 500 of 1000
  bytes and then 200 of 1000 (a pipeline reports each of its files on its own) has its
  recorded \<open>loaded\<close> go from 500 to 200 and its percentage from 50 to 20.
\<close>

theorem loaded_decreases_counterexample:
  "map_option loaded (object_after [Call ''m1'' ''asr'' None, Tick 1000, Sample 0 (bytes 500 1000)] 0)
     = Some 500
   \<and> map_option progress (object_after [Call ''m1'' ''asr'' None, Tick 1000, Sample 0 (bytes 500 1000)] 0)
     = Some (Finite 50)
   \<and> map_option loaded (object_after [Call ''m1'' ''asr'' None, Tick 1000, Sample 0 (bytes 500 1000),
        Tick 1000, Sample 0 (bytes 200 1000)] 0) = Some 200
   \<and> map_option progress (object_after [Call ''m1'' ''asr'' None, Tick 1000, Sample 0 (bytes 500 1000),
        Tick 1000, Sample 0 (bytes 200 1000)] 0) = Some (Finite 20)"
  by (simp add: scenario_defs)

text \<open>
  C9, as the code has it. The derived speed is at least 0 for every processed sample
  whose \<open>loaded\<close> is not below \<^verbatim>\<open>lastLoaded\<close>, and it is 0, with no division,
  when the timestamp is equal to (or before) the previous one.
\<close>

theorem speed_sign_follows_loaded:
  "(lastLoaded d \<le> s_loaded s \<longrightarrow> 0 \<le> speed (snd (progressTracker now d p s)))
   \<and> (now \<le> lastTime d \<longrightarrow> speed (snd (progressTracker now d p s)) = 0)"
  by (simp add: progressTracker_def Let_def)

theorem speed_sign_follows_loaded_witness:
  "lastLoaded \<lparr>d_modelId = ''m1'', d_task = ''asr'', lastLoaded = 500, lastTime = 1000, d_promise = 0\<rparr>
     \<le> s_loaded (bytes 800 1000)
   \<and> 0 \<le> speed (snd (progressTracker 2000
        \<lparr>d_modelId = ''m1'', d_task = ''asr'', lastLoaded = 500, lastTime = 1000, d_promise = 0\<rparr>
        (fresh ''m1'') (bytes 800 1000)))
   \<and> 1000 \<le> lastTime \<lparr>d_modelId = ''m1'', d_task = ''asr'', lastLoaded = 500, lastTime = 1000, d_promise = 0\<rparr>
   \<and> speed (snd (progressTracker 1000
        \<lparr>d_modelId = ''m1'', d_task = ''asr'', lastLoaded = 500, lastTime = 1000, d_promise = 0\<rparr>
        (fresh ''m1'') (bytes 800 1000))) = 0"
  using speed_sign_follows_loaded [of
      "\<lparr>d_modelId = ''m1'', d_task = ''asr'', lastLoaded = 500, lastTime = 1000, d_promise = 0\<rparr>"
      "bytes 800 1000" 2000 "fresh ''m1''"]
    speed_sign_follows_loaded [of
      "\<lparr>d_modelId = ''m1'', d_task = ''asr'', lastLoaded = 500, lastTime = 1000, d_promise = 0\<rparr>"
      "bytes 800 1000" 1000 "fresh ''m1''"]
  by (simp add: bytes_def)

text \<open>
  For every sample the property does not hold: 500 bytes at time 1000, then 200 bytes at time 2000,
  give a speed of \<open>-300\<close> bytes per second.
\<close>

theorem negative_speed_counterexample:
  "map_option speed
     (object_after [Call ''m1'' ''asr'' None, Tick 1000, Sample 0 (bytes 500 1000), Tick 1000,
        Sample 0 (bytes 200 1000)] 0) = Some (- 300)"
  by (simp add: scenario_defs)

subsection \<open>Subscribers that throw\<close>

text \<open>
  C6, as the code has it. \<^verbatim>\<open>notifyProgress\<close> calls the registered callbacks in
  registration order up to and including the first one that throws; the exception ends
  the loop, so the callbacks registered after it are not run for that notification, and
  it is passed on to the caller of \<^verbatim>\<open>notifyProgress\<close>. Whatever the callbacks do,
  a download whose fetch settles still reaches a terminal status, its eviction is still
  scheduled, and its requester's promise is settled.
\<close>

theorem throwing_callback_ends_notification:
  assumes "registered st m = pre @ cb # post"
    and "\<forall>c\<in>set pre. cb_run c p = None" and "cb_run cb p = Some e"
  shows "notifyProgress m p st
           = (Some e, st\<lparr>notified := notified st @ map (\<lambda>c. (cb_id c, p)) (pre @ [cb])\<rparr>)
       \<and> (inflight st a = Some d \<and> (ev = Resolve a model \<or> ev = Reject a e') \<longrightarrow>
            (\<exists>st' res. step st ev = Some st' \<and> terminal (status (heap st' a))
               \<and> inflight st' a = None
               \<and> timers st' (next_timer st) = Some (clock st + 5000, Evict (d_modelId d))
               \<and> settled st' = settled st @ [(d_promise d, res)]))"
proof (intro conjI impI)
  show "notifyProgress m p st
           = (Some e, st\<lparr>notified := notified st @ map (\<lambda>c. (cb_id c, p)) (pre @ [cb])\<rparr>)"
    using assms by (simp add: notifyProgress_def forEach_cb_throw)
next
  assume "inflight st a = Some d \<and> (ev = Resolve a model \<or> ev = Reject a e')"
  then have "inflight st a = Some d" and "ev = Resolve a model \<or> ev = Reject a e'"
    by simp_all
  from settling_is_terminal_and_schedules_eviction [OF this]
  show "\<exists>st' res. step st ev = Some st' \<and> terminal (status (heap st' a))
               \<and> inflight st' a = None
               \<and> timers st' (next_timer st) = Some (clock st + 5000, Evict (d_modelId d))
               \<and> settled st' = settled st @ [(d_promise d, res)]"
    by blast
qed

theorem throwing_callback_ends_notification_witness:
  "map_option (\<lambda>st. fst (notifyProgress ''m1'' (fresh ''m1'') st))
     (run init [Call ''m1'' ''asr'' (Some (recorder 0)), Call ''m1'' ''asr'' (Some (thrower 1)),
        Call ''m1'' ''asr'' (Some (recorder 2))])
     = Some (Some (ErrorObj ''boom''))
   \<and> map_option (\<lambda>st. map fst (notified (snd (notifyProgress ''m1'' (fresh ''m1'') st))))
     (run init [Call ''m1'' ''asr'' (Some (recorder 0)), Call ''m1'' ''asr'' (Some (thrower 1)),
        Call ''m1'' ''asr'' (Some (recorder 2))])
     = Some [0, 1]
   \<and> map_option (\<lambda>st. terminal (status (heap st 0)))
       (run init [Call ''m1'' ''asr'' (Some (recorder 0)), Call ''m1'' ''asr'' (Some (thrower 1)),
          Call ''m1'' ''asr'' (Some (recorder 2)), Resolve 0 7]) = Some True
   \<and> map_option (\<lambda>st. timers st 2)
       (run init [Call ''m1'' ''asr'' (Some (recorder 0)), Call ''m1'' ''asr'' (Some (thrower 1)),
          Call ''m1'' ''asr'' (Some (recorder 2)), Resolve 0 7]) = Some (Some (5000, Evict ''m1''))"
proof -
  let ?calls = "[Call ''m1'' ''asr'' (Some (recorder 0)), Call ''m1'' ''asr'' (Some (thrower 1)),
        Call ''m1'' ''asr'' (Some (recorder 2))]"
  obtain st where st: "run init ?calls = Some st"
    and subs: "registered st ''m1'' = [recorder 0] @ thrower 1 # [recorder 2]"
    and fl: "inflight st 0 = Some \<lparr>d_modelId = ''m1'', d_task = ''asr'', lastLoaded = 0, lastTime = 0, d_promise = 0\<rparr>"
    and k: "next_timer st = 2" and c: "clock st = 0" and none: "notified st = []"
    by (simp add: scenario_defs)
  have ok: "\<forall>c\<in>set [recorder 0]. cb_run c (fresh ''m1'') = None"
    and bad: "cb_run (thrower 1) (fresh ''m1'') = Some (ErrorObj ''boom'')"
    by (simp_all add: recorder_def thrower_def)
  note inst = throwing_callback_ends_notification [OF subs ok bad, of 0 _ "Resolve 0 7" 7 NonError]
  from inst have told: "notifyProgress ''m1'' (fresh ''m1'') st
      = (Some (ErrorObj ''boom''),
         st\<lparr>notified := notified st @ map (\<lambda>c. (cb_id c, fresh ''m1'')) ([recorder 0] @ [thrower 1])\<rparr>)"
    by blast
  from inst fl obtain st' where fired: "step st (Resolve 0 7) = Some st'"
    and ended: "terminal (status (heap st' 0))"
    and timer: "timers st' (next_timer st) = Some (clock st + 5000, Evict ''m1'')"
    by auto
  have after: "run init (?calls @ [Resolve 0 7]) = Some st'"
    by (rule run_trans [OF st]) (use fired in \<open>simp del: step.simps\<close>)
  have "map_option (\<lambda>st. fst (notifyProgress ''m1'' (fresh ''m1'') st)) (run init ?calls)
      = Some (Some (ErrorObj ''boom''))"
    using st told by simp
  moreover have "map_option (\<lambda>st. map fst (notified (snd (notifyProgress ''m1'' (fresh ''m1'') st))))
      (run init ?calls) = Some [0, 1]"
    using st told none by (simp add: recorder_def thrower_def)
  moreover have "map_option (\<lambda>st. terminal (status (heap st 0))) (run init (?calls @ [Resolve 0 7]))
      = Some True"
    using after ended by simp
  moreover have "map_option (\<lambda>st. timers st 2) (run init (?calls @ [Resolve 0 7]))
      = Some (Some (5000, Evict ''m1''))"
    using after timer k c by simp
  ultimately show ?thesis by simp
qed

text \<open>
  What the specification says instead (later callbacks still run, the state machine is
  not affected) does not hold: callback 1, registered after the throwing callback 0, is never called, and the
  download whose fetch succeeded ends in status \<open>Error\<close> with its requester rejected
  with the callback's exception.
\<close>

theorem later_callbacks_skipped_counterexample:
  "notified_after [Call ''m1'' ''asr'' (Some (thrower 0)), Call ''m1'' ''asr'' (Some (recorder 1)),
      Sample 0 (bytes 500 1000)] = Some [(0, Downloading)]
   \<and> notified_after [Call ''m1'' ''asr'' (Some (thrower 0)), Call ''m1'' ''asr'' (Some (recorder 1)),
      Sample 0 (bytes 500 1000), Resolve 0 7] = Some [(0, Downloading), (0, Completed), (0, Error)]
   \<and> map_option status (object_after [Call ''m1'' ''asr'' (Some (thrower 0)),
      Call ''m1'' ''asr'' (Some (recorder 1)), Sample 0 (bytes 500 1000), Resolve 0 7] 0) = Some Error
   \<and> map_option settled (run init [Call ''m1'' ''asr'' (Some (thrower 0)),
      Call ''m1'' ''asr'' (Some (recorder 1)), Sample 0 (bytes 500 1000), Resolve 0 7])
     = Some [(0, Rejected (ErrorObj ''boom''))]"
  by (simp add: scenario_defs)

subsection \<open>Failure of the fetch\<close>

lemma poll_reads_error:
  assumes "activeDownloads st m = Some a" and "status (heap st a) = Error"
    and "timers st t = Some (due, Poll pr m)" and "due \<le> clock st"
  shows "step st (Fire t) =
     Some (st\<lparr>timers := (timers st)(t := None),
              settled := settled st @
                [(pr, Rejected (ErrorObj (error_or_default (error (heap st a)))))]\<rparr>)"
  using assms by (simp add: checkStatus_def getProgress_def settle_def)

text \<open>
  C7, as the code has it. When the fetch fails, the status becomes \<open>Error\<close> and the
  error message is the failure's message if the failure is an \<^verbatim>\<open>Error\<close> instance,
  and \<^verbatim>\<open>Unknown error\<close> otherwise; the registered subscribers, none of which
  throws, are all notified in order with that state; the original requester is rejected
  with the failure itself; and every joiner whose poll reads that state is rejected with
  an error carrying the recorded message, or \<^verbatim>\<open>Download failed\<close> when the message
  is empty.
\<close>

theorem fetch_failure_reaches_waiters:
  assumes "inflight st a = Some d"
    and "\<forall>cb\<in>set (registered st (d_modelId d)). \<forall>p. cb_run cb p = None"
  shows "\<exists>st1. step st (Reject a e) = Some st1
      \<and> status (heap st1 a) = Error \<and> error (heap st1 a) = Some (error_message e)
      \<and> notified st1 = notified st @ map (\<lambda>cb. (cb_id cb, heap st1 a)) (registered st (d_modelId d))
      \<and> settled st1 = settled st @ [(d_promise d, Rejected e)]
      \<and> (\<forall>st2 t due pr.
            activeDownloads st2 (d_modelId d) = Some a \<and> heap st2 a = heap st1 a
            \<and> timers st2 t = Some (due, Poll pr (d_modelId d)) \<and> due \<le> clock st2 \<longrightarrow>
            (\<exists>st3. step st2 (Fire t) = Some st3
               \<and> settled st3 = settled st2 @
                   [(pr, Rejected (ErrorObj (if error_message e = [] then ''Download failed''
                                             else error_message e)))]))"
proof -
  let ?st1 = "catch_block a d e st"
  have fired: "step st (Reject a e) = Some ?st1"
    using assms(1) by simp
  have obj: "heap ?st1 a = (heap st a)\<lparr>status := Error, error := Some (error_message e)\<rparr>"
    and told: "notified ?st1 = notified st @
        map (\<lambda>cb. (cb_id cb, (heap st a)\<lparr>status := Error, error := Some (error_message e)\<rparr>))
          (registered st (d_modelId d))"
    and out: "settled ?st1 = settled st @ [(d_promise d, Rejected e)]"
    by (simp_all add: catch_block_quiet [OF assms(2)] finish_def settle_def setTimeout_def)
  have joiner: "\<exists>st3. step st2 (Fire t) = Some st3
         \<and> settled st3 = settled st2 @
             [(pr, Rejected (ErrorObj (if error_message e = [] then ''Download failed''
                                       else error_message e)))]"
    if "activeDownloads st2 (d_modelId d) = Some a" and "heap st2 a = heap ?st1 a"
      and "timers st2 t = Some (due, Poll pr (d_modelId d))" and "due \<le> clock st2"
    for st2 t due pr
  proof -
    from that(2) obj have "status (heap st2 a) = Error"
      and "error (heap st2 a) = Some (error_message e)" by simp_all
    with poll_reads_error [OF that(1) _ that(3,4)] show ?thesis
      by (simp add: error_or_default_def)
  qed
  show ?thesis
    by (rule exI [of _ ?st1]) (use fired obj told out joiner in \<open>simp; blast\<close>)
qed

theorem fetch_failure_reaches_waiters_witness:
  "map_option settled
     (run init [Call ''m2'' ''asr'' (Some (recorder 0)), Call ''m2'' ''asr'' (Some (recorder 1)),
        Reject 0 (ErrorObj ''network timeout''), Tick 100, Fire 0])
   = Some [(0, Rejected (ErrorObj ''network timeout'')), (1, Rejected (ErrorObj ''network timeout''))]"
proof -
  let ?calls = "[Call ''m2'' ''asr'' (Some (recorder 0)), Call ''m2'' ''asr'' (Some (recorder 1))]"
  obtain st where st: "run init ?calls = Some st"
    and fl: "inflight st 0 = Some \<lparr>d_modelId = ''m2'', d_task = ''asr'', lastLoaded = 0, lastTime = 0, d_promise = 0\<rparr>"
    and subs: "\<forall>cb\<in>set (registered st (d_modelId \<lparr>d_modelId = ''m2'', d_task = ''asr'', lastLoaded = 0, lastTime = 0, d_promise = 0\<rparr>)). \<forall>p. cb_run cb p = None"
    and entry: "activeDownloads st ''m2'' = Some 0"
    and poll: "timers st 0 = Some (100, Poll 1 ''m2'')"
    and k: "next_timer st = 1" and c: "clock st = 0" and none: "settled st = []"
    by (simp add: scenario_defs)
  from fetch_failure_reaches_waiters [OF fl subs, of "ErrorObj ''network timeout''"]
  obtain st1 where failed: "step st (Reject 0 (ErrorObj ''network timeout'')) = Some st1"
    and out: "settled st1 = settled st @ [(0, Rejected (ErrorObj ''network timeout''))]"
    and joiner: "\<And>st2 t due pr. activeDownloads st2 ''m2'' = Some 0 \<Longrightarrow> heap st2 0 = heap st1 0
            \<Longrightarrow> timers st2 t = Some (due, Poll pr ''m2'') \<Longrightarrow> due \<le> clock st2 \<Longrightarrow>
            (\<exists>st3. step st2 (Fire t) = Some st3
               \<and> settled st3 = settled st2 @ [(pr, Rejected (ErrorObj ''network timeout''))])"
    by (auto simp: error_message_def)
  let ?st2 = "st1\<lparr>clock := clock st1 + 100\<rparr>"
  have tick: "step st1 (Tick 100) = Some ?st2" by simp
  from step_keeps_timers [OF failed] poll k c
  have "timers st1 0 = Some (100, Poll 1 ''m2'')" and "0 \<le> clock st1" by auto
  moreover from failed fl entry have "activeDownloads st1 ''m2'' = Some 0"
    by (auto simp: settle_defs split: option.splits)
  ultimately obtain st3 where polled: "step ?st2 (Fire 0) = Some st3"
    and "settled st3 = settled ?st2 @ [(1, Rejected (ErrorObj ''network timeout''))]"
    using joiner [of ?st2 0 100 1] by auto
  with out none have "settled st3
      = [(0, Rejected (ErrorObj ''network timeout'')), (1, Rejected (ErrorObj ''network timeout''))]"
    by simp
  moreover have "run init (?calls @ [Reject 0 (ErrorObj ''network timeout''), Tick 100, Fire 0]) = Some st3"
    by (rule run_trans [OF st]) (use failed tick polled in \<open>simp del: step.simps\<close>)
  ultimately show ?thesis by simp
qed

text \<open>
  What the specification says instead (the message verbatim, the same error for every
  waiting caller) does not hold for a failure that is no \<^verbatim>\<open>Error\<close> instance, where the message is
  \<^verbatim>\<open>Unknown error\<close> and the joiner gets an error that the requester did not, and
  for an \<^verbatim>\<open>Error\<close> with an empty message, where the joiner is told
  \<^verbatim>\<open>Download failed\<close>.
\<close>

theorem fetch_failure_message_counterexample:
  "map_option error (object_after [Call ''m2'' ''asr'' (Some (recorder 0)),
      Call ''m2'' ''asr'' (Some (recorder 1)), Reject 0 NonError] 0) = Some (Some ''Unknown error'')
   \<and> map_option settled (run init [Call ''m2'' ''asr'' (Some (recorder 0)),
      Call ''m2'' ''asr'' (Some (recorder 1)), Reject 0 NonError, Tick 100, Fire 0])
     = Some [(0, Rejected NonError), (1, Rejected (ErrorObj ''Unknown error''))]
   \<and> map_option settled (run init [Call ''m2'' ''asr'' (Some (recorder 0)),
      Call ''m2'' ''asr'' (Some (recorder 1)), Reject 0 (ErrorObj []), Tick 100, Fire 0])
     = Some [(0, Rejected (ErrorObj [])), (1, Rejected (ErrorObj ''Download failed''))]"
  by (simp add: scenario_defs)

subsection \<open>Eviction\<close>

lemma call_without_entry_starts_fetch:
  assumes "activeDownloads st m = None"
  shows "\<exists>st'. step st (Call m task onProgress) = Some st'
      \<and> pipeline_calls st' = pipeline_calls st @ [(task, m)]
      \<and> activeDownloads st' m = Some (next_ref st)
      \<and> getProgress st' m = Some (fresh m)
      \<and> inflight st' (next_ref st) =
          Some \<lparr>d_modelId = m, d_task = task, lastLoaded = 0, lastTime = clock st,
                d_promise = next_promise st\<rparr>"
  using assms by (cases onProgress) (auto simp: manager_defs Let_def)

text \<open>
  The timer of a download. When the fetch of a download settles at time \<open>clock st\<close>,
  the download reaches a terminal status and sets a timer due exactly 5000 ms later.
  Whatever happens in between, the timer stays pending until it runs; it cannot run
  before its due time; and when it runs, the identity's state and its subscriber list
  are removed, so that \<^verbatim>\<open>getProgress\<close> returns nothing, and a later call of
  \<^verbatim>\<open>downloadModel\<close> for the identity calls \<^verbatim>\<open>pipeline\<close> again with a fresh
  state.
\<close>

lemma eviction_timer_of_download:
  assumes "inflight st a = Some d"
    and "ev = Resolve a model \<or> ev = Reject a e"
    and "step st ev = Some st1"
    and "run st1 evs = Some st2"
    and "Fire (next_timer st) \<notin> set evs"
  shows "terminal (status (heap st1 a))
       \<and> timers st2 (next_timer st) = Some (clock st + 5000, Evict (d_modelId d))
       \<and> (clock st2 < clock st + 5000 \<longrightarrow> step st2 (Fire (next_timer st)) = None)
       \<and> (clock st + 5000 \<le> clock st2 \<longrightarrow>
            (\<exists>st3. step st2 (Fire (next_timer st)) = Some st3
               \<and> getProgress st3 (d_modelId d) = None \<and> callbacks st3 (d_modelId d) = None
               \<and> (\<forall>task onProgress. \<exists>st4.
                     step st3 (Call (d_modelId d) task onProgress) = Some st4
                   \<and> pipeline_calls st4 = pipeline_calls st3 @ [(task, d_modelId d)]
                   \<and> activeDownloads st4 (d_modelId d) = Some (next_ref st3)
                   \<and> getProgress st4 (d_modelId d) = Some (fresh (d_modelId d)))))"
proof -
  let ?k = "next_timer st" and ?m = "d_modelId d"
  from settling_is_terminal_and_schedules_eviction [OF assms(1,2)] assms(3)
  have ended: "terminal (status (heap st1 a))"
    and tmr: "timers st1 ?k = Some (clock st + 5000, Evict ?m)"
    and nxt: "?k < next_timer st1"
    by auto
  from run_keeps_timer [OF assms(4) nxt assms(5)] tmr
  have pending: "timers st2 ?k = Some (clock st + 5000, Evict ?m)"
    by simp
  have early: "step st2 (Fire ?k) = None" if "clock st2 < clock st + 5000"
    using that pending by simp
  have late: "\<exists>st3. step st2 (Fire ?k) = Some st3
               \<and> getProgress st3 ?m = None \<and> callbacks st3 ?m = None
               \<and> (\<forall>task onProgress. \<exists>st4.
                     step st3 (Call ?m task onProgress) = Some st4
                   \<and> pipeline_calls st4 = pipeline_calls st3 @ [(task, ?m)]
                   \<and> activeDownloads st4 ?m = Some (next_ref st3)
                   \<and> getProgress st4 ?m = Some (fresh ?m))"
    if "clock st + 5000 \<le> clock st2"
  proof -
    let ?st3 = "evict ?m (st2\<lparr>timers := (timers st2)(?k := None)\<rparr>)"
    have fire: "step st2 (Fire ?k) = Some ?st3"
      using that pending by simp
    have gone: "activeDownloads ?st3 ?m = None" "callbacks ?st3 ?m = None"
      by (simp_all add: evict_def)
    have absent: "getProgress ?st3 ?m = None"
      using gone(1) by (simp add: getProgress_def)
    have again: "\<exists>st4. step ?st3 (Call ?m task onProgress) = Some st4
           \<and> pipeline_calls st4 = pipeline_calls ?st3 @ [(task, ?m)]
           \<and> activeDownloads st4 ?m = Some (next_ref ?st3)
           \<and> getProgress st4 ?m = Some (fresh ?m)" for task onProgress
      using call_without_entry_starts_fetch [OF gone(1), of task onProgress] by blast
    show ?thesis
      by (rule exI [of _ ?st3]) (use fire absent gone(2) again in blast)
  qed
  from ended pending early late show ?thesis by blast
qed

lemma eviction_timer_of_download_example:
  "progress_after [Call ''m1'' ''asr'' (Some (recorder 0)), Resolve 0 7, Tick 5000, Fire 0] ''m1'' = None
   \<and> map_option pipeline_calls
       (run init [Call ''m1'' ''asr'' (Some (recorder 0)), Resolve 0 7, Tick 5000, Fire 0,
          Call ''m1'' ''asr'' None])
     = Some [(''asr'', ''m1''), (''asr'', ''m1'')]"
proof -
  obtain st where st: "run init [Call ''m1'' ''asr'' (Some (recorder 0))] = Some st"
    and fl: "inflight st 0 = Some \<lparr>d_modelId = ''m1'', d_task = ''asr'', lastLoaded = 0, lastTime = 0, d_promise = 0\<rparr>"
    and k: "next_timer st = 0" and c: "clock st = 0" and calls: "pipeline_calls st = [(''asr'', ''m1'')]"
    by (simp add: scenario_defs)
  obtain st1 where st1: "step st (Resolve 0 7) = Some st1"
    and c1: "clock st1 = clock st" and calls1: "pipeline_calls st1 = pipeline_calls st"
    using fl by (auto simp: settle_defs split: option.splits)
  let ?st2 = "st1\<lparr>clock := clock st1 + 5000\<rparr>"
  have tick: "step st1 (Tick 5000) = Some ?st2" by simp
  then have st2: "run st1 [Tick 5000] = Some ?st2" by simp
  have "Fire (next_timer st) \<notin> set [Tick 5000]" by simp
  from eviction_timer_of_download [OF fl _ st1 st2 this, of 7 NonError] c c1 k
  obtain st3 where st3: "step ?st2 (Fire 0) = Some st3"
    and absent: "getProgress st3 ''m1'' = None"
    and again: "\<And>task onProgress. \<exists>st4. step st3 (Call ''m1'' task onProgress) = Some st4
          \<and> pipeline_calls st4 = pipeline_calls st3 @ [(task, ''m1'')]"
    by auto
  from again [of "''asr''" None] obtain st4
    where st4: "step st3 (Call ''m1'' ''asr'' None) = Some st4"
      and calls4: "pipeline_calls st4 = pipeline_calls st3 @ [(''asr'', ''m1'')]"
    by blast
  have calls3: "pipeline_calls st3 = pipeline_calls st1"
    using st3 by (auto simp: timer_keeps_calls split: option.splits if_splits)
  have r3: "run init ([Call ''m1'' ''asr'' (Some (recorder 0))] @ [Resolve 0 7, Tick 5000, Fire 0]) = Some st3"
    by (rule run_trans [OF st]) (use st1 tick st3 in \<open>simp del: step.simps\<close>)
  have r4: "run init (([Call ''m1'' ''asr'' (Some (recorder 0))] @ [Resolve 0 7, Tick 5000, Fire 0]) @ [Call ''m1'' ''asr'' None]) = Some st4"
    by (rule run_trans [OF r3]) (use st4 in \<open>simp del: step.simps\<close>)
  from r3 absent r4 calls4 calls3 calls1 calls show ?thesis
    by (simp add: progress_after_def)
qed

text \<open>
  What one event does to the entry of an identity, to an object whose fetch has settled,
  to the closures and to the eviction timers.
\<close>

lemma step_keeps_entry:
  assumes "step st ev = Some st'" and "\<not> calls ev m"
    and "\<forall>t due. ev = Fire t \<longrightarrow> timers st t \<noteq> Some (due, Evict m)"
  shows "activeDownloads st' m = activeDownloads st m"
proof (cases ev)
  case (Call m' task onProgress)
  with assms show ?thesis
    by (cases onProgress)
      (auto simp: manager_defs Let_def split: option.splits if_splits)
next
  case (Sample b s)
  with assms show ?thesis
    by (auto simp: on_sample_def notifyProgress_eq progressTracker_def Let_def
          split: option.splits if_splits)
next
  case (Resolve b model)
  with assms show ?thesis
    by (auto simp: settle_defs split: option.splits if_splits)
next
  case (Reject b e)
  with assms show ?thesis
    by (auto simp: settle_defs split: option.splits if_splits)
next
  case (Fire t)
  show ?thesis
  proof (cases "timers st t")
    case None
    with Fire assms show ?thesis by simp
  next
    case (Some da)
    obtain due act where "da = (due, act)" by (cases da)
    with Some Fire assms show ?thesis
      by (cases act)
        (auto simp: evict_def checkStatus_def settle_def setTimeout_def getProgress_def
           split: if_splits option.splits)
  qed
next
  case (Tick ms)
  with assms show ?thesis by (auto split: if_splits)
qed

lemma step_keeps_settled_object:
  assumes "step st ev = Some st'" and "a < next_ref st" and "inflight st a = None"
  shows "heap st' a = heap st a \<and> inflight st' a = None \<and> a < next_ref st'"
proof (cases ev)
  case (Call m' task onProgress)
  with assms show ?thesis
    by (cases onProgress)
      (auto simp: manager_defs Let_def split: option.splits if_splits)
next
  case (Sample b s)
  with assms show ?thesis
    by (auto simp: on_sample_def notifyProgress_eq progressTracker_def Let_def
          split: option.splits if_splits)
next
  case (Resolve b model)
  with assms show ?thesis
    by (auto simp: settle_defs split: option.splits if_splits)
next
  case (Reject b e)
  with assms show ?thesis
    by (auto simp: settle_defs split: option.splits if_splits)
next
  case (Fire t)
  show ?thesis
  proof (cases "timers st t")
    case None
    with Fire assms show ?thesis by simp
  next
    case (Some da)
    obtain due act where "da = (due, act)" by (cases da)
    with Some Fire assms show ?thesis
      by (cases act)
        (auto simp: evict_def checkStatus_def settle_def setTimeout_def getProgress_def
           split: if_splits option.splits)
  qed
next
  case (Tick ms)
  with assms show ?thesis by (auto split: if_splits)
qed

lemma step_new_fetch_is_called:
  assumes "step st ev = Some st'" and "inflight st' b = Some d'" and "d_modelId d' = m"
  shows "(\<exists>d. inflight st b = Some d \<and> d_modelId d = m) \<or> calls ev m"
proof (cases ev)
  case (Call m' task onProgress)
  with assms show ?thesis
    by (cases onProgress)
      (auto simp: manager_defs Let_def split: option.splits if_splits)
next
  case (Sample b s)
  with assms show ?thesis
    by (auto simp: on_sample_def notifyProgress_eq progressTracker_def Let_def
          split: option.splits if_splits)
next
  case (Resolve b model)
  with assms show ?thesis
    by (auto simp: settle_defs split: option.splits if_splits)
next
  case (Reject b e)
  with assms show ?thesis
    by (auto simp: settle_defs split: option.splits if_splits)
next
  case (Fire t)
  show ?thesis
  proof (cases "timers st t")
    case None
    with Fire assms show ?thesis by simp
  next
    case (Some da)
    obtain due act where "da = (due, act)" by (cases da)
    with Some Fire assms show ?thesis
      by (cases act)
        (auto simp: evict_def checkStatus_def settle_def setTimeout_def getProgress_def
           split: if_splits option.splits)
  qed
next
  case (Tick ms)
  with assms show ?thesis by (auto split: if_splits)
qed

lemma step_new_eviction_is_settling:
  assumes "step st ev = Some st'" and "timers st' t = Some (due, Evict m)"
  shows "timers st t = Some (due, Evict m)
       \<or> (t = next_timer st \<and> (\<exists>b d. inflight st b = Some d \<and> d_modelId d = m \<and> settles ev b))"
proof (cases ev)
  case (Call m' task onProgress)
  with assms show ?thesis
    by (cases onProgress)
      (auto simp: manager_defs Let_def split: option.splits if_splits)
next
  case (Sample b s)
  with assms show ?thesis
    by (auto simp: on_sample_def notifyProgress_eq progressTracker_def Let_def
          split: option.splits if_splits)
next
  case (Resolve b model)
  with assms show ?thesis
    by (auto simp: settle_defs split: option.splits if_splits)
next
  case (Reject b e)
  with assms show ?thesis
    by (auto simp: settle_defs split: option.splits if_splits)
next
  case (Fire t)
  show ?thesis
  proof (cases "timers st t")
    case None
    with Fire assms show ?thesis by simp
  next
    case (Some da)
    obtain due act where "da = (due, act)" by (cases da)
    with Some Fire assms show ?thesis
      by (cases act)
        (auto simp: evict_def checkStatus_def settle_def setTimeout_def getProgress_def
           split: if_splits option.splits)
  qed
next
  case (Tick ms)
  with assms show ?thesis by (auto split: if_splits)
qed

lemma resting_step:
  assumes "resting st m a p k" and "step st ev = Some st'" and "ev \<noteq> Fire k" and "\<not> calls ev m"
  shows "resting st' m a p k"
proof -
  from assms(1) have entry: "activeDownloads st m = Some a" and old: "a < next_ref st"
    and obj: "heap st a = p" and idle: "inflight st a = None"
    and nofetch: "\<And>b d. inflight st b = Some d \<Longrightarrow> d_modelId d \<noteq> m"
    and only: "\<And>t due. timers st t = Some (due, Evict m) \<Longrightarrow> t = k"
    by (auto simp: resting_def)
  have "\<forall>t due. ev = Fire t \<longrightarrow> timers st t \<noteq> Some (due, Evict m)"
    using only assms(3) by blast
  from step_keeps_entry [OF assms(2,4) this] entry
  have 1: "activeDownloads st' m = Some a" by simp
  from step_keeps_settled_object [OF assms(2) old idle] obj
  have 2: "heap st' a = p" "inflight st' a = None" "a < next_ref st'" by simp_all
  have 3: "d_modelId d' \<noteq> m" if "inflight st' b = Some d'" for b d'
    using step_new_fetch_is_called [OF assms(2) that] nofetch assms(4) by blast
  have 4: "t = k" if "timers st' t = Some (due, Evict m)" for t due
    using step_new_eviction_is_settling [OF assms(2) that] nofetch only by blast
  from 1 2 3 4 show ?thesis
    by (auto simp: resting_def)
qed

lemma resting_run:
  assumes "resting st m a p k" and "run st evs = Some st'"
    and "\<forall>ev\<in>set evs. ev \<noteq> Fire k \<and> \<not> calls ev m"
  shows "resting st' m a p k"
  using assms
proof (induction evs arbitrary: st)
  case Nil
  then show ?case by simp
next
  case (Cons ev evs)
  from Cons.prems(2) obtain s where s: "step st ev = Some s" and rest: "run s evs = Some st'"
    by (auto split: option.splits)
  from resting_step [OF Cons.prems(1) s] Cons.prems(3) have "resting s m a p k" by simp
  with Cons.IH [OF _ rest] Cons.prems(3) show ?case by simp
qed

text \<open>
  The state stays through the grace delay when the download was the only one of its
  identity with no eviction timer pending, and nobody calls \<^verbatim>\<open>downloadModel\<close> for
  the identity in between: until the download's own timer runs, \<^verbatim>\<open>getProgress\<close>
  returns the terminal state.
\<close>

lemma terminal_state_stays_without_older_timer:
  assumes "sole_fetch st m a" and "inflight st a = Some d"
    and "ev = Resolve a model \<or> ev = Reject a e"
    and "step st ev = Some st1"
    and "run st1 evs = Some st2"
    and "\<forall>ev\<in>set evs. ev \<noteq> Fire (next_timer st) \<and> \<not> calls ev m"
  shows "terminal (status (heap st1 a)) \<and> getProgress st2 m = Some (heap st1 a)"
proof -
  from assms(1) have entry: "activeDownloads st m = Some a" and old: "a < next_ref st"
    and sole: "\<And>b d. inflight st b = Some d \<Longrightarrow> d_modelId d = m \<Longrightarrow> b = a"
    and none: "\<And>t due. timers st t \<noteq> Some (due, Evict m)"
    by (auto simp: sole_fetch_def)
  from settling_is_terminal_and_schedules_eviction [OF assms(2,3)] assms(4)
  have ended: "terminal (status (heap st1 a))" and gone: "inflight st1 a = None"
    by auto
  have nocall: "\<not> calls ev m"
    using assms(3) by auto
  have "\<forall>t due. ev = Fire t \<longrightarrow> timers st t \<noteq> Some (due, Evict m)"
    using assms(3) by auto
  from step_keeps_entry [OF assms(4) nocall this] entry
  have 1: "activeDownloads st1 m = Some a" by simp
  have 2: "a < next_ref st1"
    using assms(3,4) old by (auto simp: settle_defs split: option.splits)
  have 3: "d_modelId d' \<noteq> m" if "inflight st1 b = Some d'" for b d'
    using step_new_fetch_is_called [OF assms(4) that] sole gone that nocall by force
  have 4: "t = next_timer st" if "timers st1 t = Some (due, Evict m)" for t due
    using step_new_eviction_is_settling [OF assms(4) that] none by blast
  from 1 2 3 4 gone have "resting st1 m a (heap st1 a) (next_timer st)"
    by (auto simp: resting_def)
  from resting_run [OF this assms(5,6)] ended show ?thesis
    by (simp add: resting_def getProgress_def)
qed

text \<open>
  C8. After a download of an identity has reached a terminal status, its state and its
  subscriber list should stay for the grace delay of 5 seconds and be removed then. The
  scenario below breaks this. A first download of \<open>m1\<close> ends at time 0 and leaves its
  eviction timer, due at 5000. At 4000 a second call finds the terminal entry and starts
  fetch 1, which ends at once: its state is \<open>Completed\<close> and its own timer is due at
  9000. At 5000 the timer of the first download runs and removes the state of the
  second, 1000 ms after it became terminal: \<^verbatim>\<open>getProgress\<close> returns nothing while
  the timer of the second download is still pending.
\<close>

theorem early_eviction_of_terminal_state:
  "map_option status
     (progress_after [Call ''m1'' ''asr'' None, Resolve 0 7, Tick 4000, Call ''m1'' ''asr'' None,
        Resolve 1 8, Tick 1000] ''m1'') = Some Completed
   \<and> timer_after [Call ''m1'' ''asr'' None, Resolve 0 7, Tick 4000, Call ''m1'' ''asr'' None,
        Resolve 1 8, Tick 1000] 1 = Some (9000, Evict ''m1'')
   \<and> map_option clock
       (run init [Call ''m1'' ''asr'' None, Resolve 0 7, Tick 4000, Call ''m1'' ''asr'' None,
          Resolve 1 8, Tick 1000, Fire 0]) = Some 5000
   \<and> progress_after [Call ''m1'' ''asr'' None, Resolve 0 7, Tick 4000, Call ''m1'' ''asr'' None,
        Resolve 1 8, Tick 1000, Fire 0] ''m1'' = None
   \<and> timer_after [Call ''m1'' ''asr'' None, Resolve 0 7, Tick 4000, Call ''m1'' ''asr'' None,
        Resolve 1 8, Tick 1000, Fire 0] 1 = Some (9000, Evict ''m1'')"
  by (simp add: scenario_defs)

subsection \<open>A waiting caller whose entry is gone\<close>

text \<open>
  C10. Whenever \<^verbatim>\<open>checkStatus\<close> of a waiting caller runs and the identity has no
  entry in \<open>activeDownloads\<close>, the caller's promise is rejected with an error whose
  message is exactly \<^verbatim>\<open>Download cancelled\<close>, and no further poll is scheduled. This
  holds for the first check, made by \<^verbatim>\<open>waitForDownload\<close> itself, and for every
  later one, made by a timer.
\<close>

theorem wait_rejects_cancelled_when_absent:
  assumes "activeDownloads st m = None"
  shows "waitForDownload pr m st =
           st\<lparr>settled := settled st @ [(pr, Rejected (ErrorObj ''Download cancelled''))]\<rparr>
         \<and> (timers st t = Some (due, Poll pr m) \<and> due \<le> clock st \<longrightarrow>
              step st (Fire t) =
                Some (st\<lparr>timers := (timers st)(t := None),
                         settled := settled st @ [(pr, Rejected (ErrorObj ''Download cancelled''))]\<rparr>))"
  using assms by (simp add: waitForDownload_def checkStatus_def getProgress_def settle_def)

text \<open>
  The case is reachable. A download ends at time 0; at 4950 a second call starts a new
  fetch; a third call joins it and polls every 100 ms; at 5000 the eviction timer of the
  first download removes the entry; the poll at 5050 finds nothing.
\<close>

theorem wait_rejects_cancelled_when_absent_witness:
  "map_option settled
     (run init [Call ''m1'' ''asr'' None, Resolve 0 7, Tick 4950, Call ''m1'' ''asr'' None,
        Call ''m1'' ''asr'' None, Tick 50, Fire 0, Tick 50, Fire 1])
   = Some [(0, Resolved (Model 7)), (2, Rejected (ErrorObj ''Download cancelled''))]"
proof -
  let ?pre = "[Call ''m1'' ''asr'' None, Resolve 0 7, Tick 4950, Call ''m1'' ''asr'' None,
        Call ''m1'' ''asr'' None, Tick 50, Fire 0, Tick 50]"
  obtain st where st: "run init ?pre = Some st"
    and absent: "activeDownloads st ''m1'' = None"
    and timer: "timers st 1 = Some (5050, Poll 2 ''m1'')"
    and now: "clock st = 5050"
    and before: "settled st = [(0, Resolved (Model 7))]"
    by (simp add: scenario_defs)
  from wait_rejects_cancelled_when_absent [OF absent, of 2 1 5050] timer now
  have "step st (Fire 1) =
          Some (st\<lparr>timers := (timers st)(1 := None),
                   settled := settled st @ [(2, Rejected (ErrorObj ''Download cancelled''))]\<rparr>)"
    by simp
  with st before show ?thesis
    by (simp add: scenario_defs)
qed

end
